theory Spec2Isabelle
  imports Main
begin

section \<open>JavaScript values and strings\<close>

text \<open>
  The content script and the background service exchange untyped JavaScript objects
  (\<^verbatim>\<open>any\<close>); a response is read through truthiness tests such as
  \<^verbatim>\<open>response.success && response.cardId\<close>. Values are modelled by a small
  datatype; numbers are integers or NaN (card ids and counters are integers in this
  program).
\<close>

datatype jsval =
    JUndefined | JNull | JBool bool | JNum int | JNaN | JStr string
  | JArr "jsval list" | JObj "(string \<times> jsval) list"

text \<open>A promise either rejects with an error message or resolves with a value.\<close>

datatype 'a outcome = Rejected string | Resolved 'a

fun truthy :: "jsval \<Rightarrow> bool" where
  "truthy JUndefined = False"
| "truthy JNull = False"
| "truthy (JBool b) = b"
| "truthy (JNum n) = (n \<noteq> 0)"
| "truthy JNaN = False"
| "truthy (JStr s) = (s \<noteq> [])"
| "truthy (JArr xs) = True"
| "truthy (JObj fs) = True"

text \<open>
  Property read \<^verbatim>\<open>v.name\<close>: a TypeError on undefined and null (\<open>None\<close>), the field
  or undefined on an object, undefined on the other values.
\<close>

fun getProp :: "jsval \<Rightarrow> string \<Rightarrow> jsval option" where
  "getProp JUndefined name = None"
| "getProp JNull name = None"
| "getProp (JObj fs) name = (case map_of fs name of None \<Rightarrow> Some JUndefined | Some v \<Rightarrow> Some v)"
| "getProp v name = Some JUndefined"

text \<open>Optional chaining \<^verbatim>\<open>v?.name\<close>: undefined on undefined and null.\<close>

definition getPropOpt :: "jsval \<Rightarrow> string \<Rightarrow> jsval" where
  "getPropOpt v name = (case getProp v name of None \<Rightarrow> JUndefined | Some x \<Rightarrow> x)"

definition hasField :: "jsval \<Rightarrow> string \<Rightarrow> bool" where
  "hasField v name = (case v of JObj fs \<Rightarrow> name \<in> fst ` set fs | _ \<Rightarrow> False)"

subsection \<open>String primitives\<close>

fun startsWith :: "string \<Rightarrow> string \<Rightarrow> bool" where
  "startsWith s [] = True"
| "startsWith [] (p # ps) = False"
| "startsWith (c # cs) (p # ps) = (c = p \<and> startsWith cs ps)"

definition endsWith :: "string \<Rightarrow> string \<Rightarrow> bool" where
  "endsWith s p = startsWith (rev s) (rev p)"

text \<open>\<^verbatim>\<open>s.includes(p)\<close>: \<open>p\<close> occurs in \<open>s\<close> as a contiguous substring.\<close>

fun includesStr :: "string \<Rightarrow> string \<Rightarrow> bool" where
  "includesStr [] p = (p = [])"
| "includesStr (c # cs) p = (startsWith (c # cs) p \<or> includesStr cs p)"

definition isDigit :: "char \<Rightarrow> bool" where
  "isDigit c = (c \<in> set ''0123456789'')"

definition digitVal :: "char \<Rightarrow> int" where
  "digitVal c = int (of_char c) - 48"

definition isSpace :: "char \<Rightarrow> bool" where
  "isSpace c = (c \<in> {CHR '' '', CHR 0x09, CHR 0x0A, CHR 0x0B, CHR 0x0C, CHR 0x0D})"

definition decimalValue :: "string \<Rightarrow> int" where
  "decimalValue ds = foldl (\<lambda>acc c. 10 * acc + digitVal c) 0 ds"

text \<open>
  \<^verbatim>\<open>parseInt(s, 10)\<close>: leading white space is skipped, an optional sign is read, then
  the longest run of decimal digits; NaN when there is no digit.
\<close>

definition parseInt :: "string \<Rightarrow> jsval" where
  "parseInt s =
     (let t = dropWhile isSpace s;
          neg = (t \<noteq> [] \<and> hd t = CHR ''-'');
          u = (if t \<noteq> [] \<and> (hd t = CHR ''-'' \<or> hd t = CHR ''+'') then tl t else t);
          ds = takeWhile isDigit u
      in if ds = [] then JNaN
         else JNum (if neg then - decimalValue ds else decimalValue ds))"

function showNat :: "nat \<Rightarrow> string" where
  "showNat n =
     (if n < 10 then [char_of (48 + n)] else showNat (n div 10) @ [char_of (48 + n mod 10)])"
  by pat_completeness auto
termination
  by (relation "measure id") auto

declare showNat.simps [simp del]

definition showInt :: "int \<Rightarrow> string" where
  "showInt i = (if i < 0 then CHR ''-'' # showNat (nat (- i)) else showNat (nat i))"

section \<open>The background service: \<^verbatim>\<open>handleMessage\<close> (src/background.ts)\<close>

record message =
  mtype :: string
  mdata :: jsval

text \<open>
  What \<^verbatim>\<open>handleMessage\<close> reaches outside the switch: \<^verbatim>\<open>fetch\<close> (rejected, or
  the triple \<^verbatim>\<open>ok\<close>, \<^verbatim>\<open>status\<close>, parsed body), the database service and the GitHub
  service. They are parameters of the model.
\<close>

record bg_env =
  fetch :: "jsval \<Rightarrow> (bool \<times> nat \<times> jsval) outcome"
  downloadViaApi :: "jsval \<Rightarrow> jsval outcome"
  updateDatabase :: "jsval outcome"
  deleteDatabaseAndInit :: "unit outcome"
  getDatabaseInfo :: "jsval outcome"
  getCardsCount :: "jsval outcome"
  getCardStats :: "jsval \<Rightarrow> jsval outcome"
  checkForUpdates :: "jsval \<Rightarrow> jsval outcome"
  isoDate :: "jsval \<Rightarrow> jsval"

definition failure :: "string \<Rightarrow> jsval" where
  "failure msg = JObj [(''success'', JBool False), (''error'', JStr msg)]"

definition success :: "jsval \<Rightarrow> jsval" where
  "success d = JObj [(''success'', JBool True), (''data'', d)]"

text \<open>The outer \<^verbatim>\<open>catch\<close> of \<^verbatim>\<open>handleMessage\<close>.\<close>

definition outerCatch :: "string \<Rightarrow> jsval" where
  "outerCatch msg = JObj [(''error'', JStr msg)]"

definition isDbFile :: "jsval \<Rightarrow> bool" where
  "isDbFile file =
     (case (getPropOpt file ''name'', getPropOpt file ''type'') of
        (JStr name, JStr ty) \<Rightarrow>
          startsWith name ''animestars_'' \<and> endsWith name ''.json'' \<and> ty = ''file''
      | _ \<Rightarrow> False)"

definition orElse :: "jsval \<Rightarrow> jsval \<Rightarrow> jsval" where
  "orElse a b = (if truthy a then a else b)"

definition handleMessage :: "bg_env \<Rightarrow> message \<Rightarrow> jsval" where
  "handleMessage env m =
    (if mtype m = ''getDatabasesList'' then
       (case getProp (mdata m) ''apiUrl'' of
          None \<Rightarrow> failure ''TypeError''
        | Some url \<Rightarrow>
           (case fetch env url of
              Rejected e \<Rightarrow> failure e
            | Resolved (ok, status, body) \<Rightarrow>
                if \<not> ok then
                  (if status = 404 then success (JArr [])
                   else failure (''GitHub API error! status: '' @ showNat status))
                else (case body of
                        JArr files \<Rightarrow> success (JArr (filter isDbFile files))
                      | _ \<Rightarrow> failure ''TypeError'')))
     else if mtype m = ''downloadDatabase'' then
       (case getProp (mdata m) ''url'' of
          None \<Rightarrow> failure ''TypeError''
        | Some url \<Rightarrow>
           (case fetch env url of
              Rejected e \<Rightarrow> failure e
            | Resolved (ok, status, body) \<Rightarrow>
                if \<not> ok then failure (''Database download error! status: '' @ showNat status)
                else success body))
     else if mtype m = ''getRelease'' then
       (case getProp (mdata m) ''apiUrl'' of
          None \<Rightarrow> failure ''TypeError''
        | Some url \<Rightarrow>
           (case fetch env url of
              Rejected e \<Rightarrow> failure e
            | Resolved (ok, status, body) \<Rightarrow>
                if \<not> ok then failure (''GitHub API error! status: '' @ showNat status)
                else success body))
     else if mtype m = ''downloadData'' then
       (case getProp (mdata m) ''url'' of
          None \<Rightarrow> failure ''TypeError''
        | Some url \<Rightarrow>
           (let direct = (case fetch env url of
                            Resolved (True, status, body) \<Rightarrow> body
                          | _ \<Rightarrow> JUndefined)
            in if truthy direct then success direct
               else (case downloadViaApi env url of
                       Rejected e \<Rightarrow> failure e
                     | Resolved d \<Rightarrow>
                         if truthy d then success d
                         else failure ''All download methods failed'')))
     else if mtype m = ''forceUpdate'' then
       (case updateDatabase env of Rejected e \<Rightarrow> outerCatch e | Resolved r \<Rightarrow> r)
     else if mtype m = ''clearDatabase'' then
       (case deleteDatabaseAndInit env of
          Rejected e \<Rightarrow> failure e
        | Resolved u \<Rightarrow> JObj [(''success'', JBool True)])
     else if mtype m = ''getDatabaseInfo'' then
       (case getDatabaseInfo env of
          Rejected e \<Rightarrow> outerCatch e
        | Resolved info \<Rightarrow>
           (case getCardsCount env of
              Rejected e \<Rightarrow> outerCatch e
            | Resolved cardsCount \<Rightarrow>
                JObj [(''version'', orElse (getPropOpt info ''version'') (JStr ''unknown'')),
                      (''timestamp'', getPropOpt info ''timestamp''),
                      (''totalCards'', orElse (getPropOpt info ''totalCards'') cardsCount),
                      (''filename'', getPropOpt info ''filename''),
                      (''downloadUrl'', getPropOpt info ''downloadUrl''),
                      (''cardsCount'', cardsCount),
                      (''lastUpdate'',
                         if truthy (getPropOpt info ''timestamp'')
                         then isoDate env (getPropOpt info ''timestamp'') else JUndefined)]))
     else if mtype m = ''getCardsCount'' then
       (case getCardsCount env of
          Rejected e \<Rightarrow> outerCatch e
        | Resolved n \<Rightarrow> success n)
     else if mtype m = ''getCardStats'' then
       (if truthy (mdata m) \<and> truthy (getPropOpt (mdata m) ''cardId'') then
          (case getCardStats env (getPropOpt (mdata m) ''cardId'') of
             Rejected e \<Rightarrow> outerCatch e
           | Resolved stats \<Rightarrow> success stats)
        else JObj [(''success'', JBool False), (''data'', JNull)])
     else if mtype m = ''checkUpdates'' then
       (case getDatabaseInfo env of
          Rejected e \<Rightarrow> outerCatch e
        | Resolved info \<Rightarrow>
           (case checkForUpdates env info of
              Rejected e \<Rightarrow> outerCatch e
            | Resolved b \<Rightarrow> JObj [(''needsUpdate'', b)]))
     else JObj [(''error'', JStr ''Unknown message type'')])"

text \<open>
  \<^verbatim>\<open>chrome.runtime.sendMessage\<close> as the content script sees it when the shipped
  background answers: the promise resolves with what \<^verbatim>\<open>sendResponse\<close> was given.
\<close>

definition shippedBackground :: "bg_env \<Rightarrow> message \<Rightarrow> jsval outcome" where
  "shippedBackground env m = Resolved (handleMessage env m)"

section \<open>The page: a DOM of element nodes\<close>

text \<open>
  An element has an identity (\<open>nid\<close>), a tag name (upper case, as \<^verbatim>\<open>tagName\<close>
  reports it in an HTML document), its attributes and its element children in document
  order. Text nodes carry nothing this program reads and are left out.
\<close>

datatype node = Node (nid: nat) (tagName: string) (attrs: "(string \<times> string) list") (children: "node list")

definition getAttribute :: "node \<Rightarrow> string \<Rightarrow> string option" where
  "getAttribute n a = map_of (attrs n) a"

definition hasAttribute :: "node \<Rightarrow> string \<Rightarrow> bool" where
  "hasAttribute n a = (getAttribute n a \<noteq> None)"

definition removeAttribute :: "string \<Rightarrow> node \<Rightarrow> node" where
  "removeAttribute a n = Node (nid n) (tagName n) (filter (\<lambda>kv. fst kv \<noteq> a) (attrs n)) (children n)"

definition setAttribute :: "string \<Rightarrow> string \<Rightarrow> node \<Rightarrow> node" where
  "setAttribute a v n =
     Node (nid n) (tagName n) ((a, v) # filter (\<lambda>kv. fst kv \<noteq> a) (attrs n)) (children n)"

definition className :: "node \<Rightarrow> string" where
  "className n = (case getAttribute n ''class'' of None \<Rightarrow> [] | Some c \<Rightarrow> c)"

text \<open>The class attribute split at white space: \<^verbatim>\<open>classList\<close>.\<close>

fun tokens :: "string \<Rightarrow> string \<Rightarrow> string list" where
  "tokens w [] = (if w = [] then [] else [w])"
| "tokens w (c # cs) =
     (if isSpace c then (if w = [] then tokens [] cs else w # tokens [] cs)
      else tokens (w @ [c]) cs)"

definition classList :: "node \<Rightarrow> string list" where
  "classList n = tokens [] (className n)"

definition hasClass :: "node \<Rightarrow> string \<Rightarrow> bool" where
  "hasClass n c = (c \<in> set (classList n))"

text \<open>The proper descendants of an element, in document order.\<close>

fun descendants :: "node \<Rightarrow> node list" where
  "descendants (Node i t a cs) = concat (map (\<lambda>c. c # descendants c) cs)"

definition subtree :: "node \<Rightarrow> node list" where
  "subtree n = n # descendants n"

text \<open>
  The chain from an element up to the root of its tree: the element first, then its
  parent, and so on; empty when the tree does not hold the element.
\<close>

fun pathTo :: "nat \<Rightarrow> node \<Rightarrow> node list" where
  "pathTo i (Node j t a cs) =
     (if i = j then [Node j t a cs]
      else (case filter (\<lambda>p. p \<noteq> []) (map (pathTo i) cs) of
              [] \<Rightarrow> []
            | p # ps \<Rightarrow> p @ [Node j t a cs]))"

subsection \<open>Selectors\<close>

text \<open>
  The selectors of the source are CSS strings handed to the browser. The model keeps them
  parsed: a compound selector is a list of simple selectors that must all hold of one
  element, a complex selector is a chain of compounds joined by the descendant
  combinator (outermost first). \<open>selectorText\<close> gives the source's string back.
\<close>

datatype simple = Tag string | Class string | Id string | AttrPresent string
  | AttrContains string string

type_synonym compound = "simple list"
type_synonym complex = "compound list"

definition upperChar :: "char \<Rightarrow> char" where
  "upperChar c =
     (case map_of (zip ''abcdefghijklmnopqrstuvwxyz'' ''ABCDEFGHIJKLMNOPQRSTUVWXYZ'') c of
        None \<Rightarrow> c | Some u \<Rightarrow> u)"

fun matchesSimple :: "simple \<Rightarrow> node \<Rightarrow> bool" where
  "matchesSimple (Tag t) n = (tagName n = map upperChar t)"
| "matchesSimple (Class c) n = hasClass n c"
| "matchesSimple (Id i) n = (getAttribute n ''id'' = Some i)"
| "matchesSimple (AttrPresent a) n = hasAttribute n a"
| "matchesSimple (AttrContains a v) n =
     (case getAttribute n a of None \<Rightarrow> False | Some x \<Rightarrow> v \<noteq> [] \<and> includesStr x v)"

definition matchesCompound :: "compound \<Rightarrow> node \<Rightarrow> bool" where
  "matchesCompound c n = list_all (\<lambda>s. matchesSimple s n) c"

text \<open>
  The outer compounds (innermost first) against the proper ancestors (nearest first):
  each compound needs an ancestor above the one the previous compound took.
\<close>

fun matchesChain :: "compound list \<Rightarrow> node list \<Rightarrow> bool" where
  "matchesChain [] anc = True"
| "matchesChain (c # cs) [] = False"
| "matchesChain (c # cs) (a # anc) =
     ((matchesCompound c a \<and> matchesChain cs anc) \<or> matchesChain (c # cs) anc)"

text \<open>\<^verbatim>\<open>element.matches(selector)\<close>, the element given by its chain to the root.\<close>

definition matchesPath :: "complex \<Rightarrow> node list \<Rightarrow> bool" where
  "matchesPath sel path =
     (case path of
        [] \<Rightarrow> False
      | e # anc \<Rightarrow>
         (case rev sel of
            [] \<Rightarrow> False
          | c # cs \<Rightarrow> matchesCompound c e \<and> matchesChain cs anc))"

fun simpleText :: "simple \<Rightarrow> string" where
  "simpleText (Tag t) = t"
| "simpleText (Class c) = CHR ''.'' # c"
| "simpleText (Id i) = CHR ''#'' # i"
| "simpleText (AttrPresent a) = ''['' @ a @ '']''"
| "simpleText (AttrContains a v) = ''['' @ a @ ''*='' @ [CHR 0x22] @ v @ [CHR 0x22] @ '']''"

definition compoundText :: "compound \<Rightarrow> string" where
  "compoundText c = concat (map simpleText c)"

fun selectorText :: "complex \<Rightarrow> string" where
  "selectorText [] = []"
| "selectorText [c] = compoundText c"
| "selectorText (c # cs) = compoundText c @ '' '' @ selectorText cs"

text \<open>
  \<^verbatim>\<open>element.querySelector\<close> with a compound selector (no combinator): the first proper
  descendant it holds of; only the element's own subtree matters.
\<close>

definition querySelector :: "node \<Rightarrow> compound \<Rightarrow> node option" where
  "querySelector n c = find (matchesCompound c) (descendants n)"

definition querySelectorAll :: "node \<Rightarrow> compound \<Rightarrow> node list" where
  "querySelectorAll n c = filter (matchesCompound c) (descendants n)"

section \<open>The content script: \<^verbatim>\<open>CardStatsOverlay\<close> (src/content.ts)\<close>

subsection \<open>Selector table\<close>

datatype insertion = Append | Prepend | Before | After

record CardSelector =
  selector :: complex
  dataIdAttribute :: string
  dataNameAttribute :: "string option"
  insertionMethod :: insertion
  targetSelector :: "complex option"
  extractFromImage :: bool

definition cardImage :: simple where
  "cardImage = AttrContains ''src'' ''/uploads/cards_image/''"

definition cardSelectors :: "CardSelector list" where
  "cardSelectors =
    [\<lparr>selector = [[Class ''anime-cards__item-wrapper'']], dataIdAttribute = ''data-id'',
      dataNameAttribute = Some ''data-name'', insertionMethod = Append,
      targetSelector = Some [[Class ''anime-cards__item-wrapper'']], extractFromImage = False\<rparr>,
     \<lparr>selector = [[Class ''trade__inventory-item''], [Tag ''img'', cardImage]],
      dataIdAttribute = ''src'', dataNameAttribute = None, insertionMethod = Append,
      targetSelector = Some [[Class ''trade__inventory-item'']], extractFromImage = True\<rparr>,
     \<lparr>selector = [[Class ''trade__main-item'']], dataIdAttribute = ''href'',
      dataNameAttribute = None, insertionMethod = Append,
      targetSelector = None, extractFromImage = False\<rparr>,
     \<lparr>selector = [[Class ''trade__item''], [Tag ''img'', cardImage]],
      dataIdAttribute = ''src'', dataNameAttribute = None, insertionMethod = Append,
      targetSelector = Some [[Class ''trade__item'']], extractFromImage = True\<rparr>,
     \<lparr>selector = [[Class ''inventory-card'']], dataIdAttribute = ''data-card-id'',
      dataNameAttribute = None, insertionMethod = Append,
      targetSelector = None, extractFromImage = False\<rparr>,
     \<lparr>selector = [[Class ''history__body-item'']], dataIdAttribute = ''href'',
      dataNameAttribute = None, insertionMethod = Append,
      targetSelector = None, extractFromImage = False\<rparr>,
     \<lparr>selector = [[Class ''lootbox__card'']], dataIdAttribute = ''data-id'',
      dataNameAttribute = None, insertionMethod = Append,
      targetSelector = None, extractFromImage = True\<rparr>,
     \<lparr>selector = [[Class ''remelt__inventory-item''], [Tag ''img'', cardImage]],
      dataIdAttribute = ''src'', dataNameAttribute = None, insertionMethod = Append,
      targetSelector = Some [[Class ''remelt__inventory-item'']], extractFromImage = True\<rparr>,
     \<lparr>selector = [[Class ''owl-item''], [Tag ''a'', AttrContains ''href'' ''/cards/users/?id='']],
      dataIdAttribute = ''href'', dataNameAttribute = None, insertionMethod = Append,
      targetSelector = None, extractFromImage = False\<rparr>,
     \<lparr>selector = [[Class ''trade__inventory-item''], [Tag ''img'', cardImage]],
      dataIdAttribute = ''src'', dataNameAttribute = None, insertionMethod = Append,
      targetSelector = Some [[Class ''trade__inventory-item'']], extractFromImage = True\<rparr>]"

subsection \<open>Timers and the state of the instance\<close>

text \<open>
  Every \<^verbatim>\<open>setTimeout\<close> and \<^verbatim>\<open>setInterval\<close> callback of the class is one
  constructor of \<open>task\<close>; a pending timer is its id, its due time (milliseconds, as
  \<^verbatim>\<open>Date.now()\<close> counts) and its task.
\<close>

datatype task =
    UserInactivity
  | ResumeRescan
  | ScanTimer
  | DatabaseUpdatedRescan
  | NavigationDelay
  | NavigationRetry
  | NavigationWatchdog
  | NavigationFinish nat
  | MutationRescan
  | LootboxRescan
  | GuardExpiry string
  | CleanupInterval
  | LootboxPoll
  | InitRetry

type_synonym timer = "nat \<times> int \<times> task"

text \<open>\<^verbatim>\<open>CardElement\<close> of src/types.ts; the element is held by its identity.\<close>

record card =
  element :: nat
  cardId :: jsval
  cardName :: "string option"

text \<open>
  The fields of the class that the modelled methods read or write, with the page around
  it: the document tree (its root is \<^verbatim>\<open>document.body\<close>), the detached subtrees the
  script still holds references into, the path of the location, the clock and the pending
  timers. \<open>inFlight\<close> holds the calls of \<^verbatim>\<open>addStatsOverlay\<close> suspended at their
  \<^verbatim>\<open>await\<close> of the statistics. \<open>scanLog\<close> lists the times at which
  \<^verbatim>\<open>processExistingCards\<close> ran past its guard (its console line), newest first;
  \<open>sent\<close> lists the messages sent to the background, newest first.
\<close>

record state =
  document :: node
  detached :: "node list"
  pathname :: string
  now :: int
  timers :: "timer list"
  nextTimer :: nat
  nextNode :: nat
  isInitialized :: bool
  intersectionObserver :: "nat list option"
  retryDelay :: int
  currentOverlaysCount :: int
  cardIdCache :: "string \<rightharpoonup> jsval"
  statsCache :: "jsval \<rightharpoonup> jsval"
  processingIds :: "string set"
  lastNavigationStart :: int
  navigationCounter :: int
  lastProcessTime :: int
  isUserActive :: bool
  userInactivityTimer :: "nat option"
  wasProcessingPaused :: bool
  pendingCards :: "nat list"
  isNavigationProcessing :: bool
  navigationTimeout :: "nat option"
  activeTriggerSelectors :: "complex list"
  lootboxTriggers :: bool
  inFlight :: "card list"
  scanLog :: "int list"
  sent :: "message list"

definition MAX_TOTAL_OVERLAYS :: int where "MAX_TOTAL_OVERLAYS = 200"
definition CLEANUP_INTERVAL :: int where "CLEANUP_INTERVAL = 30000"
definition PROCESS_DEBOUNCE_DELAY :: int where "PROCESS_DEBOUNCE_DELAY = 500"
definition USER_INACTIVITY_TIMEOUT :: int where "USER_INACTIVITY_TIMEOUT = 30000"
definition maxRetryAttempts :: nat where "maxRetryAttempts = 3"

text \<open>\<^verbatim>\<open>window.setTimeout(task, delay)\<close> returns the new timer's id.\<close>

definition setTimeout :: "task \<Rightarrow> int \<Rightarrow> state \<Rightarrow> nat \<times> state" where
  "setTimeout t delay s =
     (nextTimer s,
      s\<lparr>timers := timers s @ [(nextTimer s, now s + delay, t)], nextTimer := Suc (nextTimer s)\<rparr>)"

definition clearTimeout :: "nat \<Rightarrow> state \<Rightarrow> state" where
  "clearTimeout i s = s\<lparr>timers := filter (\<lambda>tm. fst tm \<noteq> i) (timers s)\<rparr>"

subsection \<open>Identifier resolution\<close>

text \<open>
  \<^verbatim>\<open>imageUrl.replace(/^https?:\/\/[^\/]+/, '').replace(/^\/+/, '')\<close>: a leading
  scheme with a non-empty host is dropped, then every leading slash.
\<close>

definition stripOrigin :: "string \<Rightarrow> string" where
  "stripOrigin u =
     (let r = (if startsWith u ''https://'' then Some (drop 8 u)
               else if startsWith u ''http://'' then Some (drop 7 u) else None)
      in case r of
           None \<Rightarrow> u
         | Some rest \<Rightarrow> if takeWhile (\<lambda>c. c \<noteq> CHR ''/'') rest = [] then u
                        else dropWhile (\<lambda>c. c \<noteq> CHR ''/'') rest)"

definition normalizeUrl :: "string \<Rightarrow> string" where
  "normalizeUrl u = dropWhile (\<lambda>c. c = CHR ''/'') (stripOrigin u)"

text \<open>
  \<^verbatim>\<open>findCardIdByImageUrlAsync\<close>. \<open>send\<close> is \<^verbatim>\<open>chrome.runtime.sendMessage\<close>; a
  rejection, and the TypeError of reading a field of an undefined response, end in the
  \<^verbatim>\<open>catch\<close> that returns null.
\<close>

definition lookupMessage :: "string \<Rightarrow> message" where
  "lookupMessage normalizedUrl =
     \<lparr>mtype = ''findCardByImage'', mdata = JObj [(''imageUrl'', JStr normalizedUrl)]\<rparr>"

definition findCardIdByImageUrlAsync ::
  "(message \<Rightarrow> jsval outcome) \<Rightarrow> string \<Rightarrow> state \<Rightarrow> jsval \<times> state" where
  "findCardIdByImageUrlAsync send imageUrl s =
     (let normalizedUrl = normalizeUrl imageUrl in
      case cardIdCache s normalizedUrl of
        Some cached \<Rightarrow> (cached, s)
      | None \<Rightarrow>
         (let s1 = s\<lparr>sent := lookupMessage normalizedUrl # sent s\<rparr>
          in case send (lookupMessage normalizedUrl) of
               Rejected e \<Rightarrow> (JNull, s1)
             | Resolved response \<Rightarrow>
                (case (getProp response ''success'', getProp response ''cardId'') of
                   (Some ok, Some cid) \<Rightarrow>
                     if truthy ok \<and> truthy cid
                     then (cid, s1\<lparr>cardIdCache := (cardIdCache s1)(normalizedUrl \<mapsto> cid)\<rparr>)
                     else (JNull, s1)
                 | _ \<Rightarrow> (JNull, s1))))"

text \<open>\<^verbatim>\<open>href.match(/id=(\d+)/)\<close>: the digits after the leftmost \<^verbatim>\<open>id=\<close> that a digit follows.\<close>

fun matchIdParam :: "string \<Rightarrow> string option" where
  "matchIdParam [] = None"
| "matchIdParam (c # cs) =
     (if startsWith (c # cs) ''id='' \<and> takeWhile isDigit (drop 3 (c # cs)) \<noteq> []
      then Some (takeWhile isDigit (drop 3 (c # cs)))
      else matchIdParam cs)"

text \<open>\<^verbatim>\<open>extractCardId\<close>: the synchronous strategies. An empty attribute value is falsy.\<close>

definition extractCardId :: "node \<Rightarrow> CardSelector \<Rightarrow> jsval" where
  "extractCardId el sel =
     (let attr = dataIdAttribute sel in
      if extractFromImage sel \<and> attr = ''src'' then JNull
      else if attr = ''href'' then
        (case getAttribute el ''href'' of
           None \<Rightarrow> JNull
         | Some href \<Rightarrow>
             if href = [] then JNull
             else (case matchIdParam href of None \<Rightarrow> JNull | Some ds \<Rightarrow> parseInt ds))
      else
        (let targetElement =
               (if hasClass el ''anime-cards__item-wrapper'' then
                  (case querySelector el [Class ''anime-cards__item''] of
                     None \<Rightarrow> el | Some cardItem \<Rightarrow> cardItem)
                else el)
         in case getAttribute targetElement attr of
              None \<Rightarrow> JNull
            | Some v \<Rightarrow> if v = [] then JNull else parseInt v))"

text \<open>
  The image URL the image strategy reads: the \<^verbatim>\<open>src\<close> attribute of the element when
  it is an \<^verbatim>\<open>IMG\<close>, of its first \<^verbatim>\<open>img\<close> descendant otherwise.
\<close>

definition imageSrc :: "node \<Rightarrow> string option" where
  "imageSrc el =
     (case (if tagName el = ''IMG'' then Some el else querySelector el [Tag ''img'']) of
        None \<Rightarrow> None
      | Some img \<Rightarrow> getAttribute img ''src'')"

text \<open>\<^verbatim>\<open>extractCardIdAsync\<close>: the image strategy, else the synchronous ones.\<close>

definition extractCardIdAsync ::
  "(message \<Rightarrow> jsval outcome) \<Rightarrow> node \<Rightarrow> CardSelector \<Rightarrow> state \<Rightarrow> jsval \<times> state" where
  "extractCardIdAsync send el sel s =
     (let attr = dataIdAttribute sel in
      if extractFromImage sel \<and> attr = ''src'' then
        (case imageSrc el of
           None \<Rightarrow> (JNull, s)
         | Some src \<Rightarrow>
             if src = [] then (JNull, s)
             else (case findCardIdByImageUrlAsync send src s of
                     (cid, s') \<Rightarrow> if truthy cid then (cid, s') else (JNull, s')))
      else (extractCardId el sel, s))"

subsection \<open>Reading and updating elements by identity\<close>

definition forest :: "state \<Rightarrow> node list" where
  "forest s = document s # detached s"

definition allNodes :: "state \<Rightarrow> node list" where
  "allNodes s = concat (map subtree (forest s))"

definition lookupElement :: "state \<Rightarrow> nat \<Rightarrow> node option" where
  "lookupElement s i = find (\<lambda>n. nid n = i) (allNodes s)"

text \<open>\<^verbatim>\<open>document.contains(element)\<close>.\<close>

definition documentContains :: "state \<Rightarrow> nat \<Rightarrow> bool" where
  "documentContains s i = (i \<in> nid ` set (subtree (document s)))"

text \<open>The chain of an element to the root of the tree that holds it.\<close>

definition pathOf :: "state \<Rightarrow> nat \<Rightarrow> node list" where
  "pathOf s i = (case filter (\<lambda>p. p \<noteq> []) (map (pathTo i) (forest s)) of [] \<Rightarrow> [] | p # ps \<Rightarrow> p)"

definition matches :: "state \<Rightarrow> nat \<Rightarrow> complex \<Rightarrow> bool" where
  "matches s i sel = matchesPath sel (pathOf s i)"

text \<open>\<^verbatim>\<open>element.closest(selector)\<close>: the nearest of the element and its ancestors.\<close>

fun closestIn :: "complex \<Rightarrow> node list \<Rightarrow> node option" where
  "closestIn sel [] = None"
| "closestIn sel (e # anc) = (if matchesPath sel (e # anc) then Some e else closestIn sel anc)"

definition closest :: "state \<Rightarrow> nat \<Rightarrow> complex \<Rightarrow> node option" where
  "closest s i sel = closestIn sel (pathOf s i)"

text \<open>\<^verbatim>\<open>document.querySelectorAll(selector)\<close>, as element ids in document order.\<close>

definition documentQuerySelectorAll :: "state \<Rightarrow> complex \<Rightarrow> nat list" where
  "documentQuerySelectorAll s sel =
     map nid (filter (\<lambda>n. matchesPath sel (pathTo (nid n) (document s))) (subtree (document s)))"

fun updateNode :: "nat \<Rightarrow> (node \<Rightarrow> node) \<Rightarrow> node \<Rightarrow> node" where
  "updateNode i f (Node j t a cs) =
     (if i = j then f (Node j t a cs) else Node j t a (map (updateNode i f) cs))"

definition updateElement :: "nat \<Rightarrow> (node \<Rightarrow> node) \<Rightarrow> state \<Rightarrow> state" where
  "updateElement i f s =
     s\<lparr>document := updateNode i f (document s), detached := map (updateNode i f) (detached s)\<rparr>"

text \<open>\<^verbatim>\<open>node.remove()\<close> for every node \<open>P\<close> holds of, below the given root.\<close>

fun removeWhere :: "(node \<Rightarrow> bool) \<Rightarrow> node \<Rightarrow> node" where
  "removeWhere P (Node j t a cs) = Node j t a (map (removeWhere P) (filter (\<lambda>c. \<not> P c) cs))"

definition overlaySelector :: compound where
  "overlaySelector = [Class ''card-stats-overlay'']"

definition isOverlay :: "node \<Rightarrow> bool" where
  "isOverlay n = matchesCompound overlaySelector n"

subsection \<open>The scan and its debounce\<close>

text \<open>\<^verbatim>\<open>IntersectionObserver.observe\<close>: a target is observed once.\<close>

definition observe :: "nat \<Rightarrow> state \<Rightarrow> state" where
  "observe e s =
     (case intersectionObserver s of
        None \<Rightarrow> s
      | Some targets \<Rightarrow>
          if e \<in> set targets then s else s\<lparr>intersectionObserver := Some (targets @ [e])\<rparr>)"

definition isRemeltPage :: "state \<Rightarrow> bool" where
  "isRemeltPage s = includesStr (pathname s) ''/cards_remelt/''"

definition markObserving :: "node \<Rightarrow> node" where
  "markObserving = setAttribute ''data-animestars-observing'' ''true''"

text \<open>The body of \<^verbatim>\<open>elements.forEach\<close> in \<^verbatim>\<open>processExistingCards\<close>.\<close>

definition registerCard :: "CardSelector \<Rightarrow> state \<Rightarrow> nat \<Rightarrow> state" where
  "registerCard sel s e =
     (case lookupElement s e of
        None \<Rightarrow> s
      | Some htmlElement \<Rightarrow>
          if isRemeltPage s \<and> includesStr (selectorText (selector sel)) ''remelt__inventory-item'' then
            (if querySelector htmlElement overlaySelector = None then
               observe e (updateElement e
                 (markObserving \<circ> removeAttribute ''data-animestars-processed''
                    \<circ> removeAttribute ''data-animestars-observing'') s)
             else s)
          else
            (if \<not> hasAttribute htmlElement ''data-animestars-observing''
                \<and> querySelector htmlElement overlaySelector = None
             then observe e (updateElement e markObserving s)
             else s))"

definition processExistingCards :: "state \<Rightarrow> state" where
  "processExistingCards s =
     (if \<not> isInitialized s \<or> intersectionObserver s = None then s
      else foldl (\<lambda>st sel. foldl (registerCard sel) st (documentQuerySelectorAll st (selector sel)))
             (s\<lparr>scanLog := now s # scanLog s\<rparr>) cardSelectors)"

definition processExistingCardsDebounced :: "state \<Rightarrow> state" where
  "processExistingCardsDebounced s =
     (if now s - lastProcessTime s < PROCESS_DEBOUNCE_DELAY then s
      else
        (let s1 = s\<lparr>lastProcessTime := now s\<rparr> in
         if \<not> isUserActive s1 then s1
         else snd (setTimeout ScanTimer PROCESS_DEBOUNCE_DELAY s1)))"

text \<open>The callback of that timer.\<close>

definition scanTimerFired :: "state \<Rightarrow> state" where
  "scanTimerFired s = (if isUserActive s then processExistingCards s else s)"

subsection \<open>Overlays\<close>

definition isUnlimitedPage :: "state \<Rightarrow> bool" where
  "isUnlimitedPage s = (includesStr (pathname s) ''/trade/'' \<or> includesStr (pathname s) ''/cards_remelt/'')"

definition jsToString :: "jsval \<Rightarrow> string" where
  "jsToString v =
     (case v of
        JNum i \<Rightarrow> showInt i
      | JStr t \<Rightarrow> t
      | JBool b \<Rightarrow> (if b then ''true'' else ''false'')
      | JNaN \<Rightarrow> ''NaN''
      | JNull \<Rightarrow> ''null''
      | JUndefined \<Rightarrow> ''undefined''
      | JArr xs \<Rightarrow> []
      | JObj fs \<Rightarrow> ''[object Object]'')"

fun closestAnyIn :: "complex list \<Rightarrow> node list \<Rightarrow> node option" where
  "closestAnyIn sels [] = None"
| "closestAnyIn sels (e # anc) =
     (if list_ex (\<lambda>sel. matchesPath sel (e # anc)) sels then Some e else closestAnyIn sels anc)"

text \<open>
  \<^verbatim>\<open>createStatsOverlay\<close>: a new subtree, the overlay \<^verbatim>\<open>div\<close> over the
  \<^verbatim>\<open>.card-stats\<close> container over three \<^verbatim>\<open>span\<close>s, each with its icon. The initial
  layout is \<^verbatim>\<open>mixed\<close> inside a lootbox card or an owl carousel, \<^verbatim>\<open>horizontal\<close>
  elsewhere. The titles (labels), the click listeners and the later layout changes, which
  follow the width the browser measures, are left out.
\<close>

definition statSpan :: "nat \<Rightarrow> string \<Rightarrow> jsval \<Rightarrow> node" where
  "statSpan i icon cid =
     Node i ''SPAN'' [(''data-card-id'', jsToString cid), (''style'', ''cursor: pointer;'')]
       [Node (Suc i) ''I'' [(''class'', icon)] []]"

definition initialLayout :: "state \<Rightarrow> nat \<Rightarrow> string" where
  "initialLayout s e =
     (case closestAnyIn [[[Class ''lootbox__card'']], [[Class ''owl-item'']], [[Class ''trade__inventory-item'']]]
             (pathOf s e) of
        None \<Rightarrow> ''horizontal''
      | Some parentCard \<Rightarrow>
          if hasClass parentCard ''lootbox__card'' then ''mixed''
          else if closest s (nid parentCard) [[Class ''owl-carousel'']] \<noteq> None then ''mixed''
          else ''horizontal'')"

definition createStatsOverlay :: "jsval \<Rightarrow> card \<Rightarrow> state \<Rightarrow> node \<times> state" where
  "createStatsOverlay stats c s =
     (let n = nextNode s in
      (Node n ''DIV'' [(''class'', ''card-stats-overlay'')]
         [Node (n + 1) ''DIV'' [(''class'', ''card-stats''), (''data-layout'', initialLayout s (element c))]
            [statSpan (n + 2) ''fas fa-users'' (cardId c),
             statSpan (n + 4) ''fas fa-heart'' (cardId c),
             statSpan (n + 6) ''fas fa-sync-alt'' (cardId c)]],
       s\<lparr>nextNode := n + 8\<rparr>))"

definition appendChild :: "node \<Rightarrow> node \<Rightarrow> node" where
  "appendChild child parent = Node (nid parent) (tagName parent) (attrs parent) (children parent @ [child])"

definition prependChild :: "node \<Rightarrow> node \<Rightarrow> node" where
  "prependChild child parent = Node (nid parent) (tagName parent) (attrs parent) (child # children parent)"

text \<open>\<^verbatim>\<open>parent.insertBefore(child, reference)\<close> and its mirror, the reference a child of the parent.\<close>

fun insertBeforeIn :: "node \<Rightarrow> nat \<Rightarrow> node list \<Rightarrow> node list" where
  "insertBeforeIn child r [] = []"
| "insertBeforeIn child r (c # cs) = (if nid c = r then child # c # cs else c # insertBeforeIn child r cs)"

fun insertAfterIn :: "node \<Rightarrow> nat \<Rightarrow> node list \<Rightarrow> node list" where
  "insertAfterIn child r [] = []"
| "insertAfterIn child r (c # cs) = (if nid c = r then c # child # cs else c # insertAfterIn child r cs)"

definition parentOf :: "state \<Rightarrow> nat \<Rightarrow> nat option" where
  "parentOf s i = (case pathOf s i of e # p # anc \<Rightarrow> Some (nid p) | _ \<Rightarrow> None)"

text \<open>\<^verbatim>\<open>cardElement.querySelector(selector)\<close> for a selector that may have combinators.\<close>

definition querySelectorIn :: "state \<Rightarrow> node \<Rightarrow> complex \<Rightarrow> node option" where
  "querySelectorIn s el sel = find (\<lambda>d. matches s (nid d) sel) (descendants el)"

definition insertOverlay :: "nat \<Rightarrow> node \<Rightarrow> CardSelector \<Rightarrow> state \<Rightarrow> state" where
  "insertOverlay cardElement overlay sel s =
     (case lookupElement s cardElement of
        None \<Rightarrow> s
      | Some el \<Rightarrow>
          if querySelectorAll el overlaySelector \<noteq> [] then s
          else
            (let targetElement =
                   (case targetSelector sel of
                      None \<Rightarrow> cardElement
                    | Some ts \<Rightarrow>
                       (case closest s cardElement ts of
                          Some t \<Rightarrow> nid t
                        | None \<Rightarrow>
                           (case querySelectorIn s el ts of
                              Some t \<Rightarrow> nid t
                            | None \<Rightarrow> cardElement)))
             in case insertionMethod sel of
                  Append \<Rightarrow> updateElement targetElement (appendChild overlay) s
                | Prepend \<Rightarrow> updateElement targetElement (prependChild overlay) s
                | Before \<Rightarrow>
                   (case parentOf s targetElement of
                      None \<Rightarrow> s
                    | Some p \<Rightarrow>
                        updateElement p
                          (\<lambda>n. Node (nid n) (tagName n) (attrs n)
                                 (insertBeforeIn overlay targetElement (children n))) s)
                | After \<Rightarrow>
                   (case parentOf s targetElement of
                      None \<Rightarrow> s
                    | Some p \<Rightarrow>
                        updateElement p
                          (\<lambda>n. Node (nid n) (tagName n) (attrs n)
                                 (insertAfterIn overlay targetElement (children n))) s)))"

text \<open>
  The part of \<^verbatim>\<open>addStatsOverlay\<close> after the statistics are there: the overlay is built,
  the selector of the element is looked up again, the overlay goes to \<^verbatim>\<open>insertOverlay\<close>
  and the counter is incremented.
\<close>

definition finishOverlay :: "card \<Rightarrow> jsval \<Rightarrow> state \<Rightarrow> state" where
  "finishOverlay c stats s =
     (case createStatsOverlay stats c s of
        (overlay, s1) \<Rightarrow>
          (case find (\<lambda>sel. matches s1 (element c) (selector sel)) cardSelectors of
             None \<Rightarrow> s1
           | Some matchingSelector \<Rightarrow>
               (let s2 = insertOverlay (element c) overlay matchingSelector s1
                in s2\<lparr>currentOverlaysCount := currentOverlaysCount s2 + 1\<rparr>)))"

definition lastSegment :: "string \<Rightarrow> string" where
  "lastSegment u = rev (takeWhile (\<lambda>ch. ch \<noteq> CHR ''/'') (rev u))"

text \<open>
  The duplicate guard of the remelt page: \<open>None\<close> when the key is held already (the call
  returns), else the state with the key held and its expiry timer set.
\<close>

definition remeltGuard :: "node \<Rightarrow> state \<Rightarrow> state option" where
  "remeltGuard el s =
     (if \<not> isRemeltPage s then Some s
      else (case querySelector el [Tag ''img''] of
              None \<Rightarrow> Some s
            | Some imgElement \<Rightarrow>
               (case getAttribute imgElement ''src'' of
                  None \<Rightarrow> Some s
                | Some src \<Rightarrow>
                    if src = [] then Some s
                    else (let processingKey = ''remelt-'' @ lastSegment src in
                          if processingKey \<in> processingIds s then None
                          else Some (snd (setTimeout (GuardExpiry processingKey) 5000
                                 (s\<lparr>processingIds := insert processingKey (processingIds s)\<rparr>)))))))"

definition getCardStatsMessage :: "jsval \<Rightarrow> message" where
  "getCardStatsMessage cid = \<lparr>mtype = ''getCardStats'', mdata = JObj [(''cardId'', cid)]\<rparr>"

text \<open>
  \<^verbatim>\<open>addStatsOverlay\<close> up to its \<^verbatim>\<open>await\<close>: with the statistics cached it runs to
  its end at once; otherwise the request is sent and the call waits in \<open>inFlight\<close>.
\<close>

definition addStatsOverlay :: "card \<Rightarrow> state \<Rightarrow> state" where
  "addStatsOverlay c s =
     (if \<not> isUnlimitedPage s \<and> currentOverlaysCount s \<ge> MAX_TOTAL_OVERLAYS then s
      else if \<not> documentContains s (element c) then s
      else (case lookupElement s (element c) of
              None \<Rightarrow> s
            | Some el \<Rightarrow>
               (case remeltGuard el s of
                  None \<Rightarrow> s
                | Some s1 \<Rightarrow>
                    if querySelector el overlaySelector \<noteq> None
                       \<or> hasAttribute el ''data-animestars-processed'' then s1
                    else
                      (let s2 = (if querySelectorAll el overlaySelector \<noteq> []
                                 then updateElement (element c) (removeWhere isOverlay) s1 else s1);
                           s3 = updateElement (element c)
                                  (setAttribute ''data-animestars-processed'' ''true'') s2
                       in case statsCache s3 (cardId c) of
                            Some stats \<Rightarrow> finishOverlay c stats s3
                          | None \<Rightarrow>
                              s3\<lparr>sent := getCardStatsMessage (cardId c) # sent s3,
                                 inFlight := inFlight s3 @ [c]\<rparr>))))"

text \<open>
  The rest of a suspended call, when the background's answer to its request arrives:
  the \<open>k\<close>-th waiting call resumes. A rejection, and the TypeError of reading a field of
  an undefined answer, end in the \<^verbatim>\<open>catch\<close>.
\<close>

definition statsResponse :: "nat \<Rightarrow> jsval outcome \<Rightarrow> state \<Rightarrow> state" where
  "statsResponse k answer s =
     (if k \<ge> length (inFlight s) then s
      else
        (let c = inFlight s ! k;
             s1 = s\<lparr>inFlight := take k (inFlight s) @ drop (Suc k) (inFlight s)\<rparr>
         in case answer of
              Rejected e \<Rightarrow> s1
            | Resolved response \<Rightarrow>
               (case (getProp response ''success'', getProp response ''data'') of
                  (Some ok, Some stats) \<Rightarrow>
                    if \<not> truthy ok \<or> \<not> truthy stats then s1
                    else finishOverlay c stats (s1\<lparr>statsCache := (statsCache s1)(cardId c \<mapsto> stats)\<rparr>)
                | _ \<Rightarrow> s1)))"

subsection \<open>Visible cards and the activity gate\<close>

definition extractCardName :: "node \<Rightarrow> CardSelector \<Rightarrow> string option" where
  "extractCardName el sel =
     (case dataNameAttribute sel of
        None \<Rightarrow> None
      | Some a \<Rightarrow>
         (let targetElement =
                (if hasClass el ''anime-cards__item-wrapper'' then
                   (case querySelector el [Class ''anime-cards__item''] of
                      None \<Rightarrow> el | Some cardItem \<Rightarrow> cardItem)
                 else el)
          in case getAttribute targetElement a of
               None \<Rightarrow> None
             | Some v \<Rightarrow> if v = [] then None else Some v))"

text \<open>\<^verbatim>\<open>Set.add\<close> on \<^verbatim>\<open>pendingCards\<close>; the list keeps the insertion order.\<close>

definition addPending :: "nat \<Rightarrow> nat list \<Rightarrow> nat list" where
  "addPending e xs = (if e \<in> set xs then xs else xs @ [e])"

text \<open>
  The callback \<^verbatim>\<open>processVisibleCards\<close> maps over the cards. The round trip of the
  image lookup is taken in one step (\<open>send\<close> answers it); what follows it reads the page
  again, but for the selector and the image URL found before.
\<close>

definition visibleCard :: "(message \<Rightarrow> jsval outcome) \<Rightarrow> state \<Rightarrow> nat \<Rightarrow> state" where
  "visibleCard send s cardElement =
     (if \<not> isUserActive s then s\<lparr>pendingCards := addPending cardElement (pendingCards s)\<rparr>
      else (case find (\<lambda>sel. matches s cardElement (selector sel)) cardSelectors of
              None \<Rightarrow> s
            | Some matchingSelector \<Rightarrow>
               (case lookupElement s cardElement of
                  None \<Rightarrow> s
                | Some el \<Rightarrow>
                   (case extractCardIdAsync send el matchingSelector s of
                      (cid, s1) \<Rightarrow>
                        if truthy cid \<and> querySelector el overlaySelector = None
                        then addStatsOverlay
                               \<lparr>element = cardElement, cardId = cid,
                                cardName = extractCardName el matchingSelector\<rparr> s1
                        else s1))))"

definition processVisibleCards :: "(message \<Rightarrow> jsval outcome) \<Rightarrow> nat list \<Rightarrow> state \<Rightarrow> state" where
  "processVisibleCards send cards s =
     (if \<not> isUserActive s
      then s\<lparr>pendingCards := foldl (\<lambda>xs e. addPending e xs) (pendingCards s) cards\<rparr>
      else foldl (visibleCard send) s cards)"

definition handleUserInactivity :: "state \<Rightarrow> state" where
  "handleUserInactivity s = s\<lparr>isUserActive := False, wasProcessingPaused := True\<rparr>"

definition handleUserLeft :: "state \<Rightarrow> state" where
  "handleUserLeft s = s\<lparr>isUserActive := False, wasProcessingPaused := True\<rparr>"

definition resumeProcessing :: "(message \<Rightarrow> jsval outcome) \<Rightarrow> state \<Rightarrow> state" where
  "resumeProcessing send s =
     (if wasProcessingPaused s then
        (let s1 = s\<lparr>wasProcessingPaused := False\<rparr>;
             s2 = (if pendingCards s1 \<noteq> []
                   then processVisibleCards send (pendingCards s1) (s1\<lparr>pendingCards := []\<rparr>)
                   else s1)
         in snd (setTimeout ResumeRescan 1000 s2))
      else s)"

definition handleUserReturned :: "(message \<Rightarrow> jsval outcome) \<Rightarrow> state \<Rightarrow> state" where
  "handleUserReturned send s = resumeProcessing send (s\<lparr>isUserActive := True\<rparr>)"

definition handleUserActivity :: "(message \<Rightarrow> jsval outcome) \<Rightarrow> state \<Rightarrow> state" where
  "handleUserActivity send s =
     (let s1 = (if \<not> isUserActive s then resumeProcessing send (s\<lparr>isUserActive := True\<rparr>) else s);
          s2 = (case userInactivityTimer s1 of None \<Rightarrow> s1 | Some t \<Rightarrow> clearTimeout t s1)
      in case setTimeout UserInactivity USER_INACTIVITY_TIMEOUT s2 of
           (t, s3) \<Rightarrow> s3\<lparr>userInactivityTimer := Some t\<rparr>)"


subsection \<open>Flags, teardown of overlays and the periodic sweep\<close>

fun clearFlagsTree :: "string list \<Rightarrow> node \<Rightarrow> node" where
  "clearFlagsTree names (Node i t a cs) =
     Node i t (filter (\<lambda>kv. fst kv \<notin> set names) a) (map (clearFlagsTree names) cs)"

text \<open>\<^verbatim>\<open>clearProcessedFlags(container)\<close>: the flag is removed below the container.\<close>

definition clearProcessedFlags :: "nat \<Rightarrow> state \<Rightarrow> state" where
  "clearProcessedFlags container s =
     updateElement container
       (\<lambda>n. Node (nid n) (tagName n) (attrs n)
              (map (clearFlagsTree [''data-animestars-processed'']) (children n))) s"

definition clearAllProcessedFlags :: "state \<Rightarrow> state" where
  "clearAllProcessedFlags s =
     s\<lparr>document := clearFlagsTree [''data-animestars-processed'', ''data-animestars-observing'']
                      (document s),
       pendingCards := []\<rparr>"

definition removeAllStatsOverlays :: "state \<Rightarrow> state" where
  "removeAllStatsOverlays s = s\<lparr>document := removeWhere isOverlay (document s)\<rparr>"

text \<open>The overlays of the document, as \<^verbatim>\<open>document.querySelectorAll('.card-stats-overlay')\<close> lists them.\<close>

definition liveOverlays :: "state \<Rightarrow> nat list" where
  "liveOverlays s = documentQuerySelectorAll s [overlaySelector]"

definition removeNode :: "nat \<Rightarrow> state \<Rightarrow> state" where
  "removeNode i s = s\<lparr>document := removeWhere (\<lambda>n. nid n = i) (document s)\<rparr>"

text \<open>
  The second loop of \<^verbatim>\<open>performCleanup\<close>: while \<open>i < toRemove\<close> and \<open>i\<close> is within the
  list, the \<open>i\<close>-th overlay is removed and the counter decremented.
\<close>

fun removeExcess :: "nat \<Rightarrow> nat list \<Rightarrow> state \<Rightarrow> state" where
  "removeExcess 0 ovs s = s"
| "removeExcess (Suc k) [] s = s"
| "removeExcess (Suc k) (ov # ovs) s =
     removeExcess k ovs ((removeNode ov s)\<lparr>currentOverlaysCount := currentOverlaysCount s - 1\<rparr>)"

text \<open>
  \<^verbatim>\<open>performCleanup\<close>. An overlay the first loop finds is in the document, so its parent
  is; the loop removes an overlay only when it has no parent inside \<^verbatim>\<open>document.body\<close>,
  that is when it is the root itself, which \<open>removeNode\<close> leaves in place.
\<close>

definition staleOverlay :: "state \<Rightarrow> nat \<Rightarrow> bool" where
  "staleOverlay s ov = (case parentOf s ov of None \<Rightarrow> True | Some p \<Rightarrow> \<not> documentContains s p)"

definition performCleanup :: "state \<Rightarrow> state" where
  "performCleanup s =
     (let s1 = foldl (\<lambda>st ov. if staleOverlay st ov
                               then (removeNode ov st)\<lparr>currentOverlaysCount := currentOverlaysCount st - 1\<rparr>
                               else st) s (liveOverlays s)
      in if \<not> isUnlimitedPage s1 \<and> currentOverlaysCount s1 > MAX_TOTAL_OVERLAYS
         then removeExcess (nat (currentOverlaysCount s1 - MAX_TOTAL_OVERLAYS)) (liveOverlays s1) s1
         else s1)"

subsection \<open>Navigation triggers\<close>

definition resetFlag :: "nat \<Rightarrow> state \<Rightarrow> state" where
  "resetFlag maxProcessingTime s = (clearTimeout maxProcessingTime s)\<lparr>isNavigationProcessing := False\<rparr>"

definition remeltImageSelector :: complex where
  "remeltImageSelector = [[Class ''remelt__inventory-item''], [Tag ''img'', cardImage]]"

definition handleNavigationTrigger :: "state \<Rightarrow> state" where
  "handleNavigationTrigger s =
     (if isNavigationProcessing s then
        (let s1 = (case navigationTimeout s of None \<Rightarrow> s | Some t \<Rightarrow> clearTimeout t s)
         in case setTimeout NavigationRetry 300 s1 of
              (t, s2) \<Rightarrow> s2\<lparr>navigationTimeout := Some t\<rparr>)
      else
        (let s1 = s\<lparr>isNavigationProcessing := True, lastNavigationStart := now s,
                    navigationCounter := navigationCounter s + 1\<rparr>
         in case setTimeout NavigationWatchdog 5000 s1 of
              (maxProcessingTime, s2) \<Rightarrow>
                (let s3 = removeAllStatsOverlays (clearAllProcessedFlags s2) in
                 if isRemeltPage s3 then
                   (let s4 = s3\<lparr>processingIds := {}\<rparr>;
                        s5 = foldl (\<lambda>st img. updateElement img
                                      (removeAttribute ''data-animestars-observing''
                                         \<circ> removeAttribute ''data-animestars-processed'') st)
                                s4 (documentQuerySelectorAll s4 remeltImageSelector)
                    in resetFlag maxProcessingTime s5)
                 else snd (setTimeout (NavigationFinish maxProcessingTime) 100 s3))))"

text \<open>The callbacks of the coordinator's timers.\<close>

definition navigationWatchdogFired :: "state \<Rightarrow> state" where
  "navigationWatchdogFired s = s\<lparr>isNavigationProcessing := False\<rparr>"

definition navigationFinishFired :: "nat \<Rightarrow> state \<Rightarrow> state" where
  "navigationFinishFired maxProcessingTime s = resetFlag maxProcessingTime (processExistingCardsDebounced s)"

text \<open>The delegated click and change listeners of \<^verbatim>\<open>setupTriggers\<close>, and the lootbox one.\<close>

definition clickHandler :: "nat \<Rightarrow> state \<Rightarrow> state" where
  "clickHandler target s =
     (case find (\<lambda>sel. matches s target sel \<or> closest s target sel \<noteq> None) (activeTriggerSelectors s) of
        None \<Rightarrow> s
      | Some matchedSelector \<Rightarrow>
          snd (setTimeout NavigationDelay
                 (if selectorText matchedSelector = ''.remelt__rank-item''
                     \<or> selectorText matchedSelector = ''.remelt__lock-item'' then 1000 else 500) s))"

definition changeHandler :: "nat \<Rightarrow> state \<Rightarrow> state" where
  "changeHandler target s =
     (case find (\<lambda>sel. (includesStr (selectorText sel) ''select''
                          \<or> selectorText sel = ''#choose_filter_page''
                          \<or> selectorText sel = ''.category-type'')
                        \<and> (matches s target sel \<or> closest s target sel \<noteq> None))
             (activeTriggerSelectors s) of
        None \<Rightarrow> s
      | Some matchedSelector \<Rightarrow>
          snd (setTimeout NavigationDelay
                 (if selectorText matchedSelector = ''.category-type'' then 1000 else 500) s))"

definition lootboxClickHandler :: "nat \<Rightarrow> state \<Rightarrow> state" where
  "lootboxClickHandler target s =
     (if lootboxTriggers s \<and> closest s target [[Class ''lootbox__card'']] \<noteq> None
      then snd (setTimeout LootboxRescan 1000 s) else s)"

definition lootboxRescanFired :: "state \<Rightarrow> state" where
  "lootboxRescanFired s =
     processExistingCardsDebounced
       (foldl (\<lambda>st c. updateElement c (removeAttribute ''data-animestars-processed'') st) s
          (documentQuerySelectorAll s
             [[Class ''lootbox__card'', AttrPresent ''data-animestars-processed'']]))"

definition lootboxPollFired :: "state \<Rightarrow> state" where
  "lootboxPollFired s =
     (if documentQuerySelectorAll s [[Class ''lootbox__card'', AttrPresent ''data-id'']] \<noteq> []
      then processExistingCardsDebounced s else s)"

subsection \<open>The mutation observer\<close>

text \<open>
  A mutation record as the observer's configuration delivers it: a change of children
  with its added and removed nodes (an element by its identity, or another kind of node),
  or a change of one of the listed attributes with its target. A removed element is
  among the detached subtrees when the callback runs.
\<close>

datatype mnode = ElementNode nat | OtherNode

datatype mutation =
    ChildList (addedNodes: "mnode list") (removedNodes: "mnode list")
  | Attributes (target: nat) (attributeName: "string option")

text \<open>The three flags of the callback.\<close>

record flags =
  shouldProcess :: bool
  isTradePageUpdate :: bool
  hasCardChanges :: bool

definition cardAttributes :: "string list" where
  "cardAttributes = [''data-id'', ''data-card-id'', ''data-pack-id'', ''data-rank'']"

definition cardClasses :: "string list" where
  "cardClasses = [''card'', ''trade-card'', ''inventory-card'', ''pack-card'', ''owl-item'']"

text \<open>
  \<^verbatim>\<open>isCardElement\<close>: the element and its ancestors, five levels at most, up to the
  root of the tree.
\<close>

fun isCardElementIn :: "nat \<Rightarrow> node list \<Rightarrow> bool" where
  "isCardElementIn 0 path = False"
| "isCardElementIn (Suc depth) [] = False"
| "isCardElementIn (Suc depth) (current # anc) =
     (list_ex (\<lambda>sel. matchesPath (selector sel) (current # anc)) cardSelectors
      \<or> list_ex (hasAttribute current) cardAttributes
      \<or> (className current \<noteq> [] \<and> list_ex (includesStr (className current)) cardClasses)
      \<or> isCardElementIn depth anc)"

definition isCardElement :: "state \<Rightarrow> nat \<Rightarrow> bool" where
  "isCardElement s e = isCardElementIn 5 (pathOf s e)"

definition tradeContainerSelectors :: "complex list" where
  "tradeContainerSelectors =
     [[[Class ''trade__inventory'']], [[Class ''trade__main'']], [[Class ''trade__offers'']],
      [[Class ''trade__cards-list'']], [[Class ''trade-section'']],
      [[AttrContains ''class'' ''trade-inventory'']], [[AttrContains ''id'' ''trade'']]]"

definition isTradePageContainer :: "state \<Rightarrow> node \<Rightarrow> bool" where
  "isTradePageContainer s el =
     (if \<not> includesStr (pathname s) ''/trade/'' then False
      else list_ex (\<lambda>sel. matches s (nid el) sel \<or> querySelectorIn s el sel \<noteq> None)
             tradeContainerSelectors)"

definition hasCardsInside :: "state \<Rightarrow> node \<Rightarrow> bool" where
  "hasCardsInside s el = list_ex (\<lambda>sel. querySelectorIn s el (selector sel) \<noteq> None) cardSelectors"

text \<open>\<^verbatim>\<open>pathname.match(/\/cards\/\d+\/trade\//)\<close>.\<close>

fun matchCardsTrade :: "string \<Rightarrow> bool" where
  "matchCardsTrade [] = False"
| "matchCardsTrade (c # cs) =
     ((startsWith (c # cs) ''/cards/''
        \<and> takeWhile isDigit (drop 7 (c # cs)) \<noteq> []
        \<and> startsWith (dropWhile isDigit (drop 7 (c # cs))) ''/trade/'')
      \<or> matchCardsTrade cs)"

definition isTradeRelatedElement :: "state \<Rightarrow> node \<Rightarrow> string option \<Rightarrow> bool" where
  "isTradeRelatedElement s el attrName =
     (case attrName of
        None \<Rightarrow> False
      | Some a \<Rightarrow>
          if a = [] then False
          else if hasClass el ''card-stats-overlay''
                  \<or> closest s (nid el) [overlaySelector] \<noteq> None
                  \<or> querySelector el overlaySelector \<noteq> None then False
          else if \<not> (matchCardsTrade (pathname s) \<or> pathname s = ''/trade/'') then False
          else if a \<in> set [''data-id'', ''data-rank'', ''src'', ''href'', ''data-card-id'']
          then isCardElement s (nid el) \<or> isTradePageContainer s el
          else if a \<in> set [''data-loaded'', ''data-updated'', ''src'', ''data-id'', ''data-rank'']
          then isCardElement s (nid el)
          else False)"

definition isCardsCatalog :: "state \<Rightarrow> bool" where
  "isCardsCatalog s = (pathname s = ''/cards/'' \<or> startsWith (pathname s) ''/cards/?'')"

text \<open>The body of the loop over the added nodes.\<close>

definition addedNode :: "state \<Rightarrow> flags \<Rightarrow> mnode \<Rightarrow> flags" where
  "addedNode s f n =
     (case n of
        OtherNode \<Rightarrow> f
      | ElementNode e \<Rightarrow>
         (case lookupElement s e of
            None \<Rightarrow> f
          | Some el \<Rightarrow>
              if hasClass el ''card-stats-overlay''
                 \<or> closest s e [overlaySelector] \<noteq> None
                 \<or> querySelector el overlaySelector \<noteq> None
                 \<or> hasClass el ''card-stats''
                 \<or> closest s e [[Class ''card-stats'']] \<noteq> None
              then f
              else
                (let f1 = (if isCardsCatalog s then
                             (if isCardElement s e
                              then f\<lparr>shouldProcess := True, hasCardChanges := True\<rparr> else f)
                           else if isTradePageContainer s el then
                             f\<lparr>isTradePageUpdate := True, shouldProcess := True, hasCardChanges := True\<rparr>
                           else if isCardElement s e then
                             f\<lparr>shouldProcess := True, hasCardChanges := True\<rparr>
                           else f)
                 in if hasCardsInside s el then
                      (let f2 = f1\<lparr>shouldProcess := True, hasCardChanges := True\<rparr> in
                       if \<not> isCardsCatalog s \<and> isTradeRelatedElement s el None
                       then f2\<lparr>isTradePageUpdate := True\<rparr> else f2)
                    else f1)))"

text \<open>The body of the loop over the removed nodes.\<close>

definition removedNode :: "state \<Rightarrow> mnode \<Rightarrow> state" where
  "removedNode s n =
     (case n of
        OtherNode \<Rightarrow> s
      | ElementNode e \<Rightarrow>
         (case lookupElement s e of
            None \<Rightarrow> s
          | Some el \<Rightarrow>
              if hasCardsInside s el \<and> (length (children el) > 5 \<or> hasClass el ''trade__inventory'')
              then clearProcessedFlags e s else s))"

text \<open>The body of \<^verbatim>\<open>mutations.forEach\<close>.\<close>

definition mutationRecord :: "flags \<times> state \<Rightarrow> mutation \<Rightarrow> flags \<times> state" where
  "mutationRecord fs m =
     (case fs of
        (f, s) \<Rightarrow>
          (case m of
             ChildList added removed \<Rightarrow> (foldl (addedNode s) f added, foldl removedNode s removed)
           | Attributes tgt attrName \<Rightarrow>
              (case lookupElement s tgt of
                 None \<Rightarrow> (f, s)
               | Some el \<Rightarrow>
                   if isTradeRelatedElement s el attrName then
                     (f\<lparr>isTradePageUpdate := True, shouldProcess := True, hasCardChanges := True\<rparr>,
                      if hasAttribute el ''data-animestars-processed''
                      then updateElement tgt (removeAttribute ''data-animestars-processed'') s else s)
                   else (f, s))))"

text \<open>The callback of the \<^verbatim>\<open>MutationObserver\<close> of \<^verbatim>\<open>startDOMObserver\<close>.\<close>

definition mutationCallback :: "mutation list \<Rightarrow> state \<Rightarrow> state" where
  "mutationCallback mutations s =
     (case foldl mutationRecord
             (\<lparr>shouldProcess = False, isTradePageUpdate = False, hasCardChanges = False\<rparr>, s)
             mutations of
        (f, s1) \<Rightarrow>
          if shouldProcess f then
            (let s2 = (if hasCardChanges f \<and> isTradePageUpdate f then clearAllProcessedFlags s1 else s1)
             in snd (setTimeout MutationRescan (if isTradePageUpdate f then 800 else 300) s2))
          else s1)"


subsection \<open>The dataset-update message\<close>

text \<open>
  The listener of \<^verbatim>\<open>setupMessageListener\<close>. Its first statement logs
  \<^verbatim>\<open>message.data.cardsCount\<close>, which throws when the message has no data.
\<close>

definition onMessage :: "message \<Rightarrow> state \<Rightarrow> state" where
  "onMessage m s =
     (if mtype m = ''databaseUpdated'' then
        (case getProp (mdata m) ''cardsCount'' of
           None \<Rightarrow> s
         | Some n \<Rightarrow> snd (setTimeout DatabaseUpdatedRescan 500 (clearAllProcessedFlags s)))
      else s)"


subsection \<open>Initialisation\<close>

definition initLazyLoading :: "state \<Rightarrow> state" where
  "initLazyLoading s = s\<lparr>intersectionObserver := Some []\<rparr>"

definition setInterval :: "task \<Rightarrow> int \<Rightarrow> state \<Rightarrow> nat \<times> state" where
  "setInterval t period s = setTimeout t period s"

text \<open>
  \<^verbatim>\<open>startDOMObserver\<close> registers the mutation observer (its callback is
  \<open>mutationCallback\<close> below) and, on a pack page, the two-second lootbox poll.
\<close>

definition startDOMObserver :: "state \<Rightarrow> state" where
  "startDOMObserver s =
     (if includesStr (pathname s) ''/pack/'' then snd (setInterval LootboxPoll 2000 s) else s)"

definition tradeTriggerSelectors :: "complex list" where
  "tradeTriggerSelectors =
     [[[Class ''tabs__want__card'']], [[Class ''tabs__donthave__card'']], [[Class ''tabs__hide__lock'']],
      [[Id ''prev_trade_page'']], [[Id ''next_trade_page'']], [[Id ''info_trade_page'']],
      [[Class ''card-trade-list__pagination-item'']]]"

definition remeltTriggerSelectors :: "complex list" where
  "remeltTriggerSelectors =
     [[[Id ''prev_filter_page'']], [[Id ''next_filter_page'']], [[Id ''info_filter_page'']],
      [[Id ''choose_filter_page'']], [[Class ''card-filter-list__pagination-item'']],
      [[Class ''remelt__rank-item'']], [[Class ''remelt__lock-item'']], [[Class ''category-type'']]]"

definition setupNavigationTriggers :: "state \<Rightarrow> state" where
  "setupNavigationTriggers s =
     (let isTradePageUrl = includesStr (pathname s) ''/trade/'';
          isLootboxPageUrl = includesStr (pathname s) ''/pack/'';
          isRemeltPageUrl = includesStr (pathname s) ''/cards_remelt/''
      in if \<not> isTradePageUrl \<and> \<not> isLootboxPageUrl \<and> \<not> isRemeltPageUrl then s
         else if isTradePageUrl then s\<lparr>activeTriggerSelectors := tradeTriggerSelectors\<rparr>
         else if isRemeltPageUrl then s\<lparr>activeTriggerSelectors := remeltTriggerSelectors\<rparr>
         else s\<lparr>lootboxTriggers := True\<rparr>)"

definition pingMessage :: message where
  "pingMessage = \<lparr>mtype = ''ping'', mdata = JUndefined\<rparr>"

definition getCardsCountMessage :: message where
  "getCardsCountMessage = \<lparr>mtype = ''getCardsCount'', mdata = JUndefined\<rparr>"

text \<open>
  The ping of one attempt: sent again after 100 ms and after 500 ms more when the send
  itself rejects. \<open>send (attempt, k)\<close> is what the \<open>k\<close>-th send of that attempt meets.
\<close>

definition pingBackground :: "(nat \<times> nat \<Rightarrow> message \<Rightarrow> jsval outcome) \<Rightarrow> nat \<Rightarrow> jsval outcome" where
  "pingBackground send attempt =
     (case send (attempt, 0) pingMessage of
        Resolved r \<Rightarrow> Resolved r
      | Rejected e \<Rightarrow>
         (case send (attempt, 1) pingMessage of
            Resolved r \<Rightarrow> Resolved r
          | Rejected e2 \<Rightarrow> send (attempt, 2) pingMessage))"

text \<open>The body of the \<^verbatim>\<open>try\<close> in \<^verbatim>\<open>initWithRetry\<close>: \<open>Inl\<close> is the error thrown.\<close>

definition initAttempt ::
  "(nat \<times> nat \<Rightarrow> message \<Rightarrow> jsval outcome) \<Rightarrow> nat \<Rightarrow> state \<Rightarrow> (string + unit) \<times> state" where
  "initAttempt send attempt s =
     (case pingBackground send attempt of
        Rejected e \<Rightarrow> (Inl e, s)
      | Resolved pingResponse \<Rightarrow>
          if \<not> truthy (getPropOpt pingResponse ''success'')
          then (Inl ''Background script not ready'', s)
          else (case send (attempt, 3) getCardsCountMessage of
                  Rejected e \<Rightarrow> (Inl e, s)
                | Resolved cardsResponse \<Rightarrow>
                   (case getProp cardsResponse ''success'' of
                      None \<Rightarrow> (Inl ''TypeError'', s)
                    | Some ok \<Rightarrow>
                        (Inr (),
                         processExistingCardsDebounced
                           (setupNavigationTriggers
                             (startDOMObserver (initLazyLoading (s\<lparr>isInitialized := True\<rparr>))))))))"

text \<open>The \<^verbatim>\<open>for\<close> loop over the attempts, with the doubling delay.\<close>

fun initRetryLoop ::
  "(nat \<times> nat \<Rightarrow> message \<Rightarrow> jsval outcome) \<Rightarrow> nat \<Rightarrow> nat \<Rightarrow> state \<Rightarrow> (string + unit) \<times> state" where
  "initRetryLoop send attempt 0 s = (Inr (), s)"
| "initRetryLoop send attempt (Suc remaining) s =
     (case initAttempt send attempt s of
        (Inr u, s') \<Rightarrow> (Inr u, s')
      | (Inl e, s') \<Rightarrow>
          if attempt < maxRetryAttempts
          then initRetryLoop send (Suc attempt) remaining (s'\<lparr>retryDelay := 2 * retryDelay s'\<rparr>)
          else (Inl e, s'))"

definition initWithRetry ::
  "(nat \<times> nat \<Rightarrow> message \<Rightarrow> jsval outcome) \<Rightarrow> state \<Rightarrow> (string + unit) \<times> state" where
  "initWithRetry send s = initRetryLoop send 1 maxRetryAttempts s"

definition init :: "(nat \<times> nat \<Rightarrow> message \<Rightarrow> jsval outcome) \<Rightarrow> state \<Rightarrow> state" where
  "init send s =
     (if isInitialized s then s
      else (case initWithRetry send s of
              (Inl e, s') \<Rightarrow> snd (setTimeout InitRetry 5000 s')
            | (Inr u, s') \<Rightarrow> s'))"

subsection \<open>The timer callbacks\<close>

text \<open>
  What each timer runs when it fires. \<open>initSend\<close> is what the messages of a retried
  initialisation meet.
\<close>

definition runTask :: "(nat \<times> nat \<Rightarrow> message \<Rightarrow> jsval outcome) \<Rightarrow> task \<Rightarrow> state \<Rightarrow> state" where
  "runTask initSend t s =
     (case t of
        UserInactivity \<Rightarrow> handleUserInactivity s
      | ResumeRescan \<Rightarrow> processExistingCardsDebounced s
      | ScanTimer \<Rightarrow> scanTimerFired s
      | DatabaseUpdatedRescan \<Rightarrow> processExistingCardsDebounced s
      | NavigationDelay \<Rightarrow> handleNavigationTrigger s
      | NavigationRetry \<Rightarrow> handleNavigationTrigger s
      | NavigationWatchdog \<Rightarrow> navigationWatchdogFired s
      | NavigationFinish w \<Rightarrow> navigationFinishFired w s
      | MutationRescan \<Rightarrow> processExistingCardsDebounced s
      | LootboxRescan \<Rightarrow> lootboxRescanFired s
      | GuardExpiry k \<Rightarrow> s\<lparr>processingIds := processingIds s - {k}\<rparr>
      | CleanupInterval \<Rightarrow> performCleanup s
      | LootboxPoll \<Rightarrow> lootboxPollFired s
      | InitRetry \<Rightarrow> init initSend s)"


subsection \<open>The event loop\<close>

text \<open>
  A timer fires no earlier than it is due: the clock moves to its due time if it is not
  there yet, a timeout leaves the list, an interval is armed again one period later, and
  the callback runs. The browser runs the pending timers in the order of their due
  times: \<open>dueFirst\<close> holds of a pending timer when none is due before it, and the event
  loop fires no other. \<open>at\<close> moves the clock for an event that comes from outside.
\<close>

definition period :: "task \<Rightarrow> int option" where
  "period t = (case t of CleanupInterval \<Rightarrow> Some CLEANUP_INTERVAL | LootboxPoll \<Rightarrow> Some 2000 | _ \<Rightarrow> None)"

definition fireTimer :: "(nat \<times> nat \<Rightarrow> message \<Rightarrow> jsval outcome) \<Rightarrow> nat \<Rightarrow> state \<Rightarrow> state" where
  "fireTimer initSend i s =
     (case find (\<lambda>tm. fst tm = i) (timers s) of
        None \<Rightarrow> s
      | Some (j, due, t) \<Rightarrow>
          runTask initSend t
            (s\<lparr>now := max (now s) due,
               timers := (case period t of
                            None \<Rightarrow> filter (\<lambda>tm. fst tm \<noteq> i) (timers s)
                          | Some p \<Rightarrow> map (\<lambda>tm. if fst tm = i then (i, max (now s) due + p, t) else tm)
                                        (timers s))\<rparr>))"

definition dueFirst :: "state \<Rightarrow> nat \<Rightarrow> bool" where
  "dueFirst s i =
     (case find (\<lambda>tm. fst tm = i) (timers s) of
        None \<Rightarrow> False
      | Some (j, due, t) \<Rightarrow> list_all (\<lambda>tm. due \<le> fst (snd tm)) (timers s))"

definition at :: "int \<Rightarrow> state \<Rightarrow> state" where
  "at t s = s\<lparr>now := max (now s) t\<rparr>"


subsection \<open>Events\<close>

text \<open>
  Everything that can make the script run: the clock, a timer, the user, the tab, a click
  or a change on an element, a message of the background, the intersection observer
  reporting visible cards, the mutation observer delivering a batch, the answer to a
  request for statistics, the host page rewriting its trees, and the start of the
  initialisation. An event that reaches the background carries what the background
  answers. The listeners that \<^verbatim>\<open>initWithRetry\<close> installs are served once the instance
  is initialised.
\<close>

datatype event =
    ClockAt int
  | TimerFires nat "nat \<times> nat \<Rightarrow> message \<Rightarrow> jsval outcome"
  | UserActivity "message \<Rightarrow> jsval outcome"
  | TabHidden
  | TabVisible "message \<Rightarrow> jsval outcome"
  | Click nat
  | Change nat
  | BackgroundMessage message
  | Intersecting "nat list" "message \<Rightarrow> jsval outcome"
  | Mutated "mutation list"
  | StatsAnswer nat "jsval outcome"
  | HostPage node "node list"
  | Initialise "nat \<times> nat \<Rightarrow> message \<Rightarrow> jsval outcome"

definition step :: "event \<Rightarrow> state \<Rightarrow> state" where
  "step ev s =
     (case ev of
        ClockAt t \<Rightarrow> at t s
      | TimerFires i initSend \<Rightarrow> (if dueFirst s i then fireTimer initSend i s else s)
      | UserActivity send \<Rightarrow> handleUserActivity send s
      | TabHidden \<Rightarrow> handleUserLeft s
      | TabVisible send \<Rightarrow> handleUserReturned send s
      | Click tgt \<Rightarrow> lootboxClickHandler tgt (clickHandler tgt s)
      | Change tgt \<Rightarrow> changeHandler tgt s
      | BackgroundMessage m \<Rightarrow> (if isInitialized s then onMessage m s else s)
      | Intersecting cards send \<Rightarrow>
          (if intersectionObserver s = None then s else processVisibleCards send cards s)
      | Mutated ms \<Rightarrow> (if isInitialized s then mutationCallback ms s else s)
      | StatsAnswer k answer \<Rightarrow> statsResponse k answer s
      | HostPage doc trees \<Rightarrow> s\<lparr>document := doc, detached := trees\<rparr>
      | Initialise initSend \<Rightarrow> init initSend s)"

definition run :: "event list \<Rightarrow> state \<Rightarrow> state" where
  "run evs s = foldl (\<lambda>st ev. step ev st) s evs"


subsection \<open>Construction\<close>

text \<open>
  \<^verbatim>\<open>new CardStatsOverlay()\<close> on a page: the field initialisers, then
  \<^verbatim>\<open>startCleanupTimer\<close>. \<open>fresh\<close> is an identity no node of the page has; timer ids
  start at 1, as in a browser.
\<close>

definition construct :: "node \<Rightarrow> string \<Rightarrow> int \<Rightarrow> nat \<Rightarrow> state" where
  "construct doc path t0 fresh =
     snd (setInterval CleanupInterval CLEANUP_INTERVAL
       \<lparr>document = doc, detached = [], pathname = path, now = t0, timers = [], nextTimer = 1,
        nextNode = fresh, isInitialized = False, intersectionObserver = None, retryDelay = 1000,
        currentOverlaysCount = 0, cardIdCache = Map.empty, statsCache = Map.empty,
        processingIds = {}, lastNavigationStart = 0, navigationCounter = 0, lastProcessTime = 0,
        isUserActive = True, userInactivityTimer = None, wasProcessingPaused = False,
        pendingCards = [], isNavigationProcessing = False, navigationTimeout = None,
        activeTriggerSelectors = [], lootboxTriggers = False, inFlight = [], scanLog = [],
        sent = []\<rparr>)"

section \<open>Properties of identifier resolution and of the background's dispatch\<close>

text \<open>
  The collaborator reports no match for an image URL when its answer to the lookup
  message is not an object with a truthy \<^verbatim>\<open>success\<close> and a truthy \<^verbatim>\<open>cardId\<close>.
\<close>

definition reportsNoMatch :: "(message \<Rightarrow> jsval outcome) \<Rightarrow> string \<Rightarrow> bool" where
  "reportsNoMatch send url =
     (case send (lookupMessage url) of
        Rejected e \<Rightarrow> False
      | Resolved response \<Rightarrow>
          \<not> (truthy (getPropOpt response ''success'') \<and> truthy (getPropOpt response ''cardId'')))"

definition noMatchBackground :: "message \<Rightarrow> jsval outcome" where
  "noMatchBackground m = Resolved (JObj [(''success'', JBool False)])"

text \<open>An image of a trade page; the path of its URL holds the number of the anime.\<close>

definition tradeImage :: node where
  "tradeImage = Node 2 ''IMG'' [(''src'', ''https://animestars.org/uploads/cards_image/5/epic/card.webp'')] []"

lemma findCardIdByImageUrlAsync_no_match:
  assumes "cardIdCache s (normalizeUrl src) = None" and "reportsNoMatch send (normalizeUrl src)"
  shows "fst (findCardIdByImageUrlAsync send src s) = JNull"
    and "cardIdCache (snd (findCardIdByImageUrlAsync send src s)) = cardIdCache s"
  using assms
  by (auto simp: findCardIdByImageUrlAsync_def reportsNoMatch_def getPropOpt_def Let_def
      split: outcome.splits option.splits)

lemma findCardIdByImageUrlAsync_sent:
  "sent (snd (findCardIdByImageUrlAsync send src s))
     = (if cardIdCache s (normalizeUrl src) = None
        then lookupMessage (normalizeUrl src) # sent s else sent s)"
  by (auto simp: findCardIdByImageUrlAsync_def Let_def split: outcome.splits option.splits)

lemma lookupMessage_inject: "lookupMessage u = lookupMessage v \<Longrightarrow> u = v"
  by (simp add: lookupMessage_def)

text \<open>
  C1. The dataset lookup for a normalized image URL is made when
  \<^verbatim>\<open>extractCardIdAsync\<close> sends the lookup message for it, which it does only on the image
  strategy and only for the normalized \<^verbatim>\<open>src\<close> of the element's image. Whenever, on a
  selector with \<^verbatim>\<open>extractFromImage\<close>, that lookup is made and reports no match,
  resolution returns null and caches nothing: no part of the URL is parsed into an id.
\<close>

theorem image_lookup_no_match_gives_null:
  assumes "extractFromImage sel"
    and "sent (snd (extractCardIdAsync send el sel s)) = lookupMessage url # sent s"
    and "reportsNoMatch send url"
  shows "fst (extractCardIdAsync send el sel s) = JNull
         \<and> cardIdCache (snd (extractCardIdAsync send el sel s)) = cardIdCache s
         \<and> (\<exists>src. imageSrc el = Some src \<and> url = normalizeUrl src)"
proof (cases "dataIdAttribute sel = ''src''")
  case False
  then have "snd (extractCardIdAsync send el sel s) = s" by (simp add: extractCardIdAsync_def)
  with assms(2) show ?thesis by simp
next
  case attr: True
  show ?thesis
  proof (cases "imageSrc el")
    case None
    then have "snd (extractCardIdAsync send el sel s) = s"
      using assms(1) attr by (simp add: extractCardIdAsync_def)
    with assms(2) show ?thesis by simp
  next
    case (Some src)
    show ?thesis
    proof (cases "src = []")
      case True
      then have "snd (extractCardIdAsync send el sel s) = s"
        using assms(1) attr Some by (simp add: extractCardIdAsync_def)
      with assms(2) show ?thesis by simp
    next
      case False
      obtain r s' where run: "findCardIdByImageUrlAsync send src s = (r, s')"
        by (cases "findCardIdByImageUrlAsync send src s") auto
      have res: "extractCardIdAsync send el sel s = (if truthy r then (r, s') else (JNull, s'))"
        using assms(1) attr Some False run by (simp add: extractCardIdAsync_def)
      then have "snd (extractCardIdAsync send el sel s) = s'" by simp
      with assms(2) have sent': "sent s' = lookupMessage url # sent s" by simp
      have "sent s' = (if cardIdCache s (normalizeUrl src) = None
                       then lookupMessage (normalizeUrl src) # sent s else sent s)"
        using findCardIdByImageUrlAsync_sent [of send src s] run by simp
      with sent' have miss: "cardIdCache s (normalizeUrl src) = None"
        and "lookupMessage url = lookupMessage (normalizeUrl src)"
        by (auto split: if_splits)
      then have url: "url = normalizeUrl src" by (simp add: lookupMessage_inject)
      from findCardIdByImageUrlAsync_no_match [OF miss assms(3) [unfolded url]] run
      have "r = JNull" and "cardIdCache s' = cardIdCache s" by auto
      then show ?thesis using res Some url by simp
    qed
  qed
qed

theorem image_lookup_no_match_gives_null_witness:
  "extractFromImage (cardSelectors ! 1)
   \<and> sent (snd (extractCardIdAsync noMatchBackground tradeImage (cardSelectors ! 1)
                  (construct tradeImage ''/trade/'' 0 3)))
       = lookupMessage ''uploads/cards_image/5/epic/card.webp''
         # sent (construct tradeImage ''/trade/'' 0 3)
   \<and> reportsNoMatch noMatchBackground ''uploads/cards_image/5/epic/card.webp''
   \<and> fst (extractCardIdAsync noMatchBackground tradeImage (cardSelectors ! 1)
            (construct tradeImage ''/trade/'' 0 3)) = JNull"
proof -
  have sel: "extractFromImage (cardSelectors ! 1)" by (simp add: cardSelectors_def)
  have nomatch: "reportsNoMatch noMatchBackground ''uploads/cards_image/5/epic/card.webp''"
    by (simp add: reportsNoMatch_def noMatchBackground_def getPropOpt_def)
  have made: "sent (snd (extractCardIdAsync noMatchBackground tradeImage (cardSelectors ! 1)
                  (construct tradeImage ''/trade/'' 0 3)))
       = lookupMessage ''uploads/cards_image/5/epic/card.webp''
         # sent (construct tradeImage ''/trade/'' 0 3)"
    by code_simp
  from image_lookup_no_match_gives_null [OF sel made nomatch] sel made nomatch
  show ?thesis by blast
qed

text \<open>
  C10. The shipped background has no case for \<^verbatim>\<open>ping\<close> or \<^verbatim>\<open>findCardByImage\<close>:
  both are answered by the default branch, with an \<^verbatim>\<open>error\<close> field and no
  \<^verbatim>\<open>success\<close> field. Against it \<^verbatim>\<open>initWithRetry\<close> throws "Background script not
  ready" after its attempts and leaves \<^verbatim>\<open>isInitialized\<close> as it was, and an image
  lookup yields null unless the URL is cached already, and caches nothing.
\<close>

theorem shipped_background_has_no_ping_or_image_lookup:
  "handleMessage env \<lparr>mtype = ''ping'', mdata = d\<rparr> = JObj [(''error'', JStr ''Unknown message type'')]
   \<and> handleMessage env \<lparr>mtype = ''findCardByImage'', mdata = d\<rparr>
       = JObj [(''error'', JStr ''Unknown message type'')]
   \<and> \<not> hasField (handleMessage env \<lparr>mtype = ''ping'', mdata = d\<rparr>) ''success''
   \<and> \<not> hasField (handleMessage env \<lparr>mtype = ''findCardByImage'', mdata = d\<rparr>) ''success''
   \<and> fst (initWithRetry (\<lambda>k. shippedBackground env) s) = Inl ''Background script not ready''
   \<and> isInitialized (snd (initWithRetry (\<lambda>k. shippedBackground env) s)) = isInitialized s
   \<and> fst (findCardIdByImageUrlAsync (shippedBackground env) u s)
       = (case cardIdCache s (normalizeUrl u) of None \<Rightarrow> JNull | Some c \<Rightarrow> c)
   \<and> cardIdCache (snd (findCardIdByImageUrlAsync (shippedBackground env) u s)) = cardIdCache s"
proof -
  have ping: "handleMessage env \<lparr>mtype = ''ping'', mdata = d'\<rparr>
      = JObj [(''error'', JStr ''Unknown message type'')]" for d'
    by (simp add: handleMessage_def)
  have find: "handleMessage env \<lparr>mtype = ''findCardByImage'', mdata = d'\<rparr>
      = JObj [(''error'', JStr ''Unknown message type'')]" for d'
    by (simp add: handleMessage_def)
  have attempt: "initAttempt (\<lambda>k. shippedBackground env) a st = (Inl ''Background script not ready'', st)"
    for a st
    by (simp add: initAttempt_def pingBackground_def shippedBackground_def pingMessage_def ping
        getPropOpt_def)
  have init: "initWithRetry (\<lambda>k. shippedBackground env) s
      = (Inl ''Background script not ready'', s\<lparr>retryDelay := 4 * retryDelay s\<rparr>)"
    by (simp add: initWithRetry_def maxRetryAttempts_def numeral_3_eq_3 attempt)
  have lookup: "findCardIdByImageUrlAsync (shippedBackground env) u s
      = (case cardIdCache s (normalizeUrl u) of
           None \<Rightarrow> (JNull, s\<lparr>sent := lookupMessage (normalizeUrl u) # sent s\<rparr>)
         | Some c \<Rightarrow> (c, s))"
    by (simp add: findCardIdByImageUrlAsync_def Let_def shippedBackground_def lookupMessage_def find
        split: option.splits)
  show ?thesis
    by (simp add: ping find init lookup hasField_def split: option.splits)
qed


section \<open>Properties of the scan debounce\<close>

text \<open>
  An invocation of the debounced scan at a given time, and a burst of invocations one
  after the other. \<open>scanDues\<close> lists the due times of the scans that are scheduled and
  have not run yet; they are spaced when any two are at least the debounce delay apart
  and none is later than the delay after the last accepted invocation.
\<close>

definition invokeAt :: "int \<Rightarrow> state \<Rightarrow> state" where
  "invokeAt t s = processExistingCardsDebounced (s\<lparr>now := t\<rparr>)"

definition burst :: "int list \<Rightarrow> state \<Rightarrow> state" where
  "burst ts s = foldl (\<lambda>st t. invokeAt t st) s ts"

definition scanDues :: "state \<Rightarrow> int list" where
  "scanDues s = map (fst \<circ> snd) (filter (\<lambda>tm. snd (snd tm) = ScanTimer) (timers s))"

definition spacedScans :: "state \<Rightarrow> bool" where
  "spacedScans s =
     (sorted_wrt (\<lambda>a b. b - a \<ge> PROCESS_DEBOUNCE_DELAY) (scanDues s)
      \<and> list_all (\<lambda>d. d \<le> lastProcessTime s + PROCESS_DEBOUNCE_DELAY) (scanDues s))"

lemma invoke_dropped:
  "t - lastProcessTime s < 500 \<Longrightarrow> invokeAt t s = s\<lparr>now := t\<rparr>"
  by (simp add: invokeAt_def processExistingCardsDebounced_def PROCESS_DEBOUNCE_DELAY_def)

lemma invoke_accepted:
  "t - lastProcessTime s \<ge> 500 \<Longrightarrow> isUserActive s \<Longrightarrow>
   invokeAt t s = s\<lparr>now := t, lastProcessTime := t,
                    timers := timers s @ [(nextTimer s, t + 500, ScanTimer)],
                    nextTimer := Suc (nextTimer s)\<rparr>"
  by (simp add: invokeAt_def processExistingCardsDebounced_def PROCESS_DEBOUNCE_DELAY_def
      setTimeout_def Let_def)

lemma invoke_accepted_inactive:
  "t - lastProcessTime s \<ge> 500 \<Longrightarrow> \<not> isUserActive s \<Longrightarrow>
   invokeAt t s = s\<lparr>now := t, lastProcessTime := t\<rparr>"
  by (simp add: invokeAt_def processExistingCardsDebounced_def PROCESS_DEBOUNCE_DELAY_def Let_def)

lemma burst_dropped:
  "\<forall>t \<in> set ts. t - lastProcessTime s < 500 \<Longrightarrow> ts \<noteq> [] \<Longrightarrow> burst ts s = s\<lparr>now := last ts\<rparr>"
proof (induction ts arbitrary: s)
  case Nil
  then show ?case by simp
next
  case (Cons t ts)
  show ?case
  proof (cases "ts = []")
    case True
    then show ?thesis using Cons.prems by (simp add: burst_def invoke_dropped)
  next
    case False
    have "burst (t # ts) s = burst ts (invokeAt t s)" by (simp add: burst_def)
    also have "invokeAt t s = s\<lparr>now := t\<rparr>" using Cons.prems by (simp add: invoke_dropped)
    also have "burst ts (s\<lparr>now := t\<rparr>) = (s\<lparr>now := t\<rparr>)\<lparr>now := last ts\<rparr>"
      using Cons.prems False by (intro Cons.IH) auto
    finally show ?thesis using False by simp
  qed
qed

lemma spaced_invoke:
  assumes "spacedScans s"
  shows "spacedScans (invokeAt t s)"
proof -
  from assms have sorted: "sorted_wrt (\<lambda>a b. b - a \<ge> 500) (scanDues s)"
    and bound: "\<And>d. d \<in> set (scanDues s) \<Longrightarrow> d \<le> lastProcessTime s + 500"
    by (auto simp: spacedScans_def PROCESS_DEBOUNCE_DELAY_def list_all_iff)
  consider (dropped) "t - lastProcessTime s < 500"
    | (inactive) "t - lastProcessTime s \<ge> 500" "\<not> isUserActive s"
    | (accepted) "t - lastProcessTime s \<ge> 500" "isUserActive s"
    by linarith
  then show ?thesis
  proof cases
    case dropped
    then show ?thesis using assms
      by (simp add: invoke_dropped spacedScans_def scanDues_def)
  next
    case inactive
    have "d \<le> t + 500" if "d \<in> set (scanDues s)" for d
      using bound [OF that] inactive(1) by linarith
    then show ?thesis using sorted inactive
      by (simp add: invoke_accepted_inactive spacedScans_def scanDues_def
          PROCESS_DEBOUNCE_DELAY_def list_all_iff)
  next
    case accepted
    have early: "d \<le> t" if "d \<in> set (scanDues s)" for d
      using bound [OF that] accepted(1) by linarith
    have dues: "scanDues (invokeAt t s) = scanDues s @ [t + 500]"
      using accepted by (simp add: invoke_accepted scanDues_def)
    have last: "lastProcessTime (invokeAt t s) = t"
      using accepted by (simp add: invoke_accepted)
    have "sorted_wrt (\<lambda>a b. b - a \<ge> 500) (scanDues s @ [t + 500])"
      using sorted early by (auto simp: sorted_wrt_append)
    moreover have "d \<le> t + 500" if "d \<in> set (scanDues s @ [t + 500])" for d
    proof (cases "d \<in> set (scanDues s)")
      case True
      from early [OF True] show ?thesis by linarith
    next
      case False
      with that show ?thesis by simp
    qed
    ultimately show ?thesis
      unfolding spacedScans_def dues last PROCESS_DEBOUNCE_DELAY_def list_all_iff by blast
  qed
qed

lemma spaced_burst: "spacedScans s \<Longrightarrow> spacedScans (burst ts s)"
  by (induction ts arbitrary: s) (auto simp: burst_def spaced_invoke)

lemma registerCard_scanLog: "scanLog (registerCard sel s e) = scanLog s"
  by (auto simp: registerCard_def observe_def updateElement_def split: option.splits)

lemma fold_registerCard_scanLog: "scanLog (foldl (registerCard sel) s es) = scanLog s"
  by (induction es arbitrary: s) (auto simp: registerCard_scanLog)

lemma processExistingCards_scanLog:
  assumes "isInitialized s" and "intersectionObserver s \<noteq> None"
  shows "scanLog (processExistingCards s) = now s # scanLog s"
proof -
  have "scanLog (foldl (\<lambda>st sel. foldl (registerCard sel) st
          (documentQuerySelectorAll st (selector sel))) s0 sels) = scanLog s0" for s0 sels
    by (induction sels arbitrary: s0) (auto simp: fold_registerCard_scanLog)
  then show ?thesis using assms by (simp add: processExistingCards_def)
qed

text \<open>
  C7 (as amended). While the user is active: an invocation at least 500 ms after the
  last accepted one is accepted and schedules one scan 500 ms later; every invocation of
  a burst inside that window returns without scheduling anything, so the burst leaves
  exactly that one scan pending, due at the end of the window, after every invocation of
  the burst. The due times of the scheduled scans stay at least 500 ms apart whatever
  the invocation times are. When its timer fires the scan runs if the user is active
  then and the script is initialised, with its observer set up; it does nothing when the
  user is inactive.
\<close>

theorem debounced_scan_while_active:
  assumes "isUserActive s"
    and "t0 - lastProcessTime s \<ge> PROCESS_DEBOUNCE_DELAY"
    and "\<forall>t \<in> set ts. t0 \<le> t \<and> t < t0 + PROCESS_DEBOUNCE_DELAY"
    and "spacedScans s"
  shows "burst (t0 # ts) s
           = s\<lparr>now := last (t0 # ts), lastProcessTime := t0,
               timers := timers s @ [(nextTimer s, t0 + PROCESS_DEBOUNCE_DELAY, ScanTimer)],
               nextTimer := Suc (nextTimer s)\<rparr>
         \<and> spacedScans (burst (t0 # ts @ us) s)
         \<and> (\<forall>s'. isUserActive s' \<and> isInitialized s' \<and> intersectionObserver s' \<noteq> None
                \<longrightarrow> scanLog (scanTimerFired s') = now s' # scanLog s')
         \<and> (\<forall>s'. \<not> isUserActive s' \<longrightarrow> scanTimerFired s' = s')"
proof -
  let ?s1 = "invokeAt t0 s"
  have first: "?s1 = s\<lparr>now := t0, lastProcessTime := t0,
      timers := timers s @ [(nextTimer s, t0 + 500, ScanTimer)], nextTimer := Suc (nextTimer s)\<rparr>"
    using assms(1,2) by (simp add: invoke_accepted PROCESS_DEBOUNCE_DELAY_def)
  have step: "burst (t0 # ts) s = burst ts ?s1" by (simp add: burst_def)
  have rest: "burst ts ?s1 = ?s1\<lparr>now := last (t0 # ts)\<rparr>"
  proof (cases "ts = []")
    case True
    then show ?thesis by (simp add: burst_def first)
  next
    case False
    have "\<forall>t \<in> set ts. t - lastProcessTime ?s1 < 500"
      using assms(3) by (auto simp: first PROCESS_DEBOUNCE_DELAY_def)
    from burst_dropped [OF this False] False show ?thesis by simp
  qed
  have a: "burst (t0 # ts) s
           = s\<lparr>now := last (t0 # ts), lastProcessTime := t0,
               timers := timers s @ [(nextTimer s, t0 + PROCESS_DEBOUNCE_DELAY, ScanTimer)],
               nextTimer := Suc (nextTimer s)\<rparr>"
    unfolding step rest by (simp add: first PROCESS_DEBOUNCE_DELAY_def)
  have b: "spacedScans (burst (t0 # ts @ us) s)"
    using assms(4) by (rule spaced_burst)
  have c: "scanLog (scanTimerFired s') = now s' # scanLog s'"
    if "isUserActive s' \<and> isInitialized s' \<and> intersectionObserver s' \<noteq> None" for s'
    using that by (simp add: scanTimerFired_def processExistingCards_scanLog)
  have d: "scanTimerFired s' = s'" if "\<not> isUserActive s'" for s'
    using that by (simp add: scanTimerFired_def)
  from a b c d show ?thesis by blast
qed

text \<open>A page with nothing on it, for the runs below.\<close>

definition emptyPage :: node where
  "emptyPage = Node 0 ''BODY'' [] []"

theorem debounced_scan_while_active_witness:
  "burst [1000, 1100, 1400] (construct emptyPage ''/cards/'' 0 1)
     = (construct emptyPage ''/cards/'' 0 1)
         \<lparr>now := 1400, lastProcessTime := 1000,
          timers := [(1, 30000, CleanupInterval), (2, 1500, ScanTimer)], nextTimer := 3\<rparr>
   \<and> spacedScans (burst [1000, 1100, 1400, 1600, 2300] (construct emptyPage ''/cards/'' 0 1))"
proof -
  let ?s = "construct emptyPage ''/cards/'' 0 1"
  have h1: "isUserActive ?s" by (simp add: construct_def setInterval_def setTimeout_def)
  have h2: "1000 - lastProcessTime ?s \<ge> PROCESS_DEBOUNCE_DELAY"
    by (simp add: construct_def setInterval_def setTimeout_def PROCESS_DEBOUNCE_DELAY_def)
  have h3: "\<forall>t \<in> set [1100, 1400 :: int]. 1000 \<le> t \<and> t < 1000 + PROCESS_DEBOUNCE_DELAY"
    by (simp add: PROCESS_DEBOUNCE_DELAY_def)
  have h4: "spacedScans ?s"
    by (simp add: spacedScans_def scanDues_def construct_def setInterval_def setTimeout_def)
  from debounced_scan_while_active [OF h1 h2 h3 h4, of "[1600, 2300]"]
  show ?thesis
    by (simp add: construct_def setInterval_def setTimeout_def PROCESS_DEBOUNCE_DELAY_def
        CLEANUP_INTERVAL_def)
qed


section \<open>Properties of the activity gate\<close>

lemma updateElement_gate [simp]:
  "isUserActive (updateElement i f s) = isUserActive s"
  "pendingCards (updateElement i f s) = pendingCards s"
  by (simp_all add: updateElement_def)

lemma setTimeout_gate [simp]:
  "isUserActive (snd (setTimeout t d s)) = isUserActive s"
  "pendingCards (snd (setTimeout t d s)) = pendingCards s"
  by (simp_all add: setTimeout_def)

lemma insertOverlay_gate [simp]:
  "isUserActive (insertOverlay e ov sel s) = isUserActive s"
  "pendingCards (insertOverlay e ov sel s) = pendingCards s"
  by (simp_all add: insertOverlay_def Let_def split: option.splits insertion.splits)

lemma finishOverlay_gate [simp]:
  "isUserActive (finishOverlay c st s) = isUserActive s"
  "pendingCards (finishOverlay c st s) = pendingCards s"
  by (simp_all add: finishOverlay_def createStatsOverlay_def Let_def split: option.splits prod.splits)

lemma remeltGuard_gate:
  "remeltGuard el s = Some s1 \<Longrightarrow> isUserActive s1 = isUserActive s \<and> pendingCards s1 = pendingCards s"
  by (auto simp: remeltGuard_def Let_def split: if_splits option.splits)

lemma addStatsOverlay_gate [simp]:
  "isUserActive (addStatsOverlay c s) = isUserActive s"
  "pendingCards (addStatsOverlay c s) = pendingCards s"
  by (auto simp: addStatsOverlay_def Let_def dest: remeltGuard_gate split: option.splits)

lemma findCardId_gate:
  "findCardIdByImageUrlAsync send u s = (r, s') \<Longrightarrow>
     isUserActive s' = isUserActive s \<and> pendingCards s' = pendingCards s"
  by (auto simp: findCardIdByImageUrlAsync_def Let_def split: option.splits outcome.splits if_splits)

lemma extractCardIdAsync_gate:
  "extractCardIdAsync send el sel s = (r, s') \<Longrightarrow>
     isUserActive s' = isUserActive s \<and> pendingCards s' = pendingCards s"
  by (auto simp: extractCardIdAsync_def Let_def dest: findCardId_gate
      split: option.splits prod.splits if_splits)

lemma visibleCard_gate:
  "isUserActive s \<Longrightarrow>
     isUserActive (visibleCard send s e) \<and> pendingCards (visibleCard send s e) = pendingCards s"
  by (auto simp: visibleCard_def dest: extractCardIdAsync_gate split: option.splits prod.splits)

lemma fold_visibleCard_gate:
  "isUserActive s \<Longrightarrow>
     isUserActive (foldl (visibleCard send) s cards)
     \<and> pendingCards (foldl (visibleCard send) s cards) = pendingCards s"
  by (induction cards arbitrary: s) (auto simp: visibleCard_gate)

lemma addPending_set: "set (addPending e xs) = insert e (set xs)"
  by (auto simp: addPending_def)

lemma addPending_distinct: "distinct xs \<Longrightarrow> distinct (addPending e xs)"
  by (auto simp: addPending_def)

lemma fold_addPending:
  "distinct xs \<Longrightarrow>
     set (foldl (\<lambda>xs e. addPending e xs) xs cards) = set xs \<union> set cards
     \<and> distinct (foldl (\<lambda>xs e. addPending e xs) xs cards)"
  by (induction cards arbitrary: xs) (auto simp: addPending_set addPending_distinct)

lemma resume_flush:
  assumes "wasProcessingPaused s" "isUserActive s"
  shows "resumeProcessing send s
           = snd (setTimeout ResumeRescan 1000
               (foldl (visibleCard send) (s\<lparr>wasProcessingPaused := False, pendingCards := []\<rparr>)
                  (pendingCards s)))"
proof (cases "pendingCards s = []")
  case True
  have "s\<lparr>wasProcessingPaused := False, pendingCards := pendingCards s\<rparr>
          = s\<lparr>wasProcessingPaused := False\<rparr>"
    by simp
  with True have eq: "s\<lparr>wasProcessingPaused := False, pendingCards := []\<rparr>
          = s\<lparr>wasProcessingPaused := False\<rparr>"
    by simp
  have "resumeProcessing send s = snd (setTimeout ResumeRescan 1000 (s\<lparr>wasProcessingPaused := False\<rparr>))"
    using assms True by (simp add: resumeProcessing_def Let_def)
  also have "\<dots> = snd (setTimeout ResumeRescan 1000
                       (s\<lparr>wasProcessingPaused := False, pendingCards := []\<rparr>))"
    by (simp only: eq)
  finally show ?thesis using True by simp
next
  case False
  then show ?thesis using assms by (simp add: resumeProcessing_def Let_def processVisibleCards_def)
qed

text \<open>
  C9. While the user is inactive (after \<^verbatim>\<open>handleUserInactivity\<close> or
  \<^verbatim>\<open>handleUserLeft\<close>, which both set the paused flag), \<^verbatim>\<open>processVisibleCards\<close> only
  adds the cards to the pending set: nothing else of the state changes, so none is
  processed. On return (\<^verbatim>\<open>handleUserReturned\<close>, or the first activity event) the
  pending set is emptied and its cards, each once since the set holds a card once, go
  through the per-card processing in one batch, none of them is queued again, and the
  one-second timer of the additional re-scan is set after the batch; its callback is the
  debounced scan.
\<close>

theorem pending_cards_flushed_on_resume:
  assumes "\<not> isUserActive s" and "wasProcessingPaused s" and "distinct (pendingCards s)"
  shows "processVisibleCards send cards s
           = s\<lparr>pendingCards := foldl (\<lambda>xs e. addPending e xs) (pendingCards s) cards\<rparr>
         \<and> set (pendingCards (processVisibleCards send cards s)) = set (pendingCards s) \<union> set cards
         \<and> distinct (pendingCards (processVisibleCards send cards s))
         \<and> handleUserReturned send s
             = snd (setTimeout ResumeRescan 1000
                 (foldl (visibleCard send)
                    (s\<lparr>isUserActive := True, wasProcessingPaused := False, pendingCards := []\<rparr>)
                    (pendingCards s)))
         \<and> pendingCards (handleUserReturned send s) = []
         \<and> isUserActive (handleUserReturned send s)
         \<and> handleUserActivity send s
             = (let s1 = handleUserReturned send s;
                    s2 = (case userInactivityTimer s1 of None \<Rightarrow> s1 | Some t \<Rightarrow> clearTimeout t s1)
                in case setTimeout UserInactivity USER_INACTIVITY_TIMEOUT s2 of
                     (t, s3) \<Rightarrow> s3\<lparr>userInactivityTimer := Some t\<rparr>)
         \<and> runTask initSend ResumeRescan = processExistingCardsDebounced"
proof -
  let ?s0 = "s\<lparr>isUserActive := True, wasProcessingPaused := False, pendingCards := []\<rparr>"
  have queue: "processVisibleCards send cards s
      = s\<lparr>pendingCards := foldl (\<lambda>xs e. addPending e xs) (pendingCards s) cards\<rparr>"
    using assms(1) by (simp add: processVisibleCards_def)
  have sets: "set (pendingCards (processVisibleCards send cards s)) = set (pendingCards s) \<union> set cards"
    and dist: "distinct (pendingCards (processVisibleCards send cards s))"
    using fold_addPending [OF assms(3), of cards] by (simp_all add: queue)
  have flush: "handleUserReturned send s
      = snd (setTimeout ResumeRescan 1000 (foldl (visibleCard send) ?s0 (pendingCards s)))"
    using resume_flush [of "s\<lparr>isUserActive := True\<rparr>" send] assms(2)
    by (simp add: handleUserReturned_def)
  have gate: "isUserActive (foldl (visibleCard send) ?s0 (pendingCards s))
      \<and> pendingCards (foldl (visibleCard send) ?s0 (pendingCards s)) = []"
    using fold_visibleCard_gate [of ?s0 send "pendingCards s"] by simp
  have empty: "pendingCards (handleUserReturned send s) = []"
    and active: "isUserActive (handleUserReturned send s)"
    using gate by (simp_all add: flush)
  have activity: "handleUserActivity send s
      = (let s1 = handleUserReturned send s;
             s2 = (case userInactivityTimer s1 of None \<Rightarrow> s1 | Some t \<Rightarrow> clearTimeout t s1)
         in case setTimeout UserInactivity USER_INACTIVITY_TIMEOUT s2 of
              (t, s3) \<Rightarrow> s3\<lparr>userInactivityTimer := Some t\<rparr>)"
    using assms(1) by (simp add: handleUserActivity_def handleUserReturned_def)
  have task: "runTask initSend ResumeRescan = processExistingCardsDebounced"
    by (rule ext) (simp add: runTask_def)
  from queue sets dist flush empty active activity task show ?thesis by blast
qed


text \<open>
  Five inventory cards become visible while the tab is hidden, then the user returns:
  none is processed before (nothing is sent, no call is in flight), and after the return
  each has exactly one call of \<^verbatim>\<open>addStatsOverlay\<close> waiting for its statistics.
\<close>

definition inventoryCard :: "nat \<Rightarrow> string \<Rightarrow> node" where
  "inventoryCard i cid = Node i ''DIV'' [(''class'', ''inventory-card''), (''data-card-id'', cid)] []"

definition fiveCards :: node where
  "fiveCards = Node 0 ''BODY'' []
     [inventoryCard 1 ''101'', inventoryCard 2 ''102'', inventoryCard 3 ''103'',
      inventoryCard 4 ''104'', inventoryCard 5 ''105'']"

definition pausedPage :: state where
  "pausedPage = processVisibleCards noMatchBackground [1, 2, 3, 4, 5]
                  (handleUserLeft (construct fiveCards ''/inventory/'' 0 6))"

theorem pending_cards_flushed_on_resume_witness:
  "\<not> isUserActive pausedPage \<and> wasProcessingPaused pausedPage
   \<and> pendingCards pausedPage = [1, 2, 3, 4, 5]
   \<and> sent pausedPage = [] \<and> inFlight pausedPage = []
   \<and> pendingCards (handleUserReturned noMatchBackground pausedPage) = []
   \<and> isUserActive (handleUserReturned noMatchBackground pausedPage)
   \<and> map element (inFlight (handleUserReturned noMatchBackground pausedPage)) = [1, 2, 3, 4, 5]
   \<and> map cardId (inFlight (handleUserReturned noMatchBackground pausedPage))
       = [JNum 101, JNum 102, JNum 103, JNum 104, JNum 105]"
proof -
  have before: "\<not> isUserActive pausedPage \<and> wasProcessingPaused pausedPage
      \<and> pendingCards pausedPage = [1, 2, 3, 4, 5] \<and> sent pausedPage = [] \<and> inFlight pausedPage = []"
    by code_simp
  then have h: "\<not> isUserActive pausedPage" "wasProcessingPaused pausedPage"
    "distinct (pendingCards pausedPage)"
    by simp_all
  have after: "map element (inFlight (handleUserReturned noMatchBackground pausedPage)) = [1, 2, 3, 4, 5]
      \<and> map cardId (inFlight (handleUserReturned noMatchBackground pausedPage))
          = [JNum 101, JNum 102, JNum 103, JNum 104, JNum 105]"
    by code_simp
  from pending_cards_flushed_on_resume [OF h, of noMatchBackground "[]"]
  have flushed: "pendingCards (handleUserReturned noMatchBackground pausedPage) = []"
    and active: "isUserActive (handleUserReturned noMatchBackground pausedPage)"
    by blast+
  from before after flushed active show ?thesis by blast
qed


section \<open>The dataset update\<close>

text \<open>
  A background that is ready, and a page with one inventory card. The card gets its
  overlay from the statistics of the first answer; then the dataset update is announced,
  the settle timer and the scan timer fire, and the card becomes visible again.
\<close>

definition readyBackground :: "message \<Rightarrow> jsval outcome" where
  "readyBackground m =
     (if mtype m = ''ping'' then Resolved (JObj [(''success'', JBool True)])
      else if mtype m = ''getCardsCount''
      then Resolved (JObj [(''success'', JBool True), (''data'', JNum 1)])
      else Resolved (JObj [(''success'', JBool False)]))"

definition oldStats :: jsval where
  "oldStats = JObj [(''users'', JNum 10), (''need'', JNum 2), (''trade'', JNum 3)]"

definition onePage :: node where
  "onePage = Node 0 ''BODY'' [] [inventoryCard 1 ''101'']"

definition displaying :: state where
  "displaying =
     statsResponse 0 (Resolved (JObj [(''success'', JBool True), (''data'', oldStats)]))
       (processVisibleCards readyBackground [1]
          (fireTimer (\<lambda>k. readyBackground) 2
             (snd (initWithRetry (\<lambda>k. readyBackground) (construct onePage ''/inventory/'' 1000000 2)))))"

definition databaseUpdated :: message where
  "databaseUpdated = \<lparr>mtype = ''databaseUpdated'', mdata = JObj [(''cardsCount'', JNum 1)]\<rparr>"

definition afterUpdate :: state where
  "afterUpdate =
     processVisibleCards readyBackground [1]
       (fireTimer (\<lambda>k. readyBackground) 4
          (fireTimer (\<lambda>k. readyBackground) 3
             (onMessage databaseUpdated (at 2000000 displaying))))"

text \<open>What the runs below look at in a state.\<close>

definition observed :: "state \<Rightarrow> int list \<times> jsval option \<times> string list \<times> nat list \<times> timer list" where
  "observed s = (scanLog s, statsCache s (JNum 101), map mtype (sent s), liveOverlays s, timers s)"

lemma clearAllProcessedFlags_statsCache: "statsCache (clearAllProcessedFlags s) = statsCache s"
  by (simp add: clearAllProcessedFlags_def)

text \<open>
  C8 (a defect of the code). The handler of the dataset update clears the flags and sets
  the 500 ms timer of the re-scan, but it never touches the statistics cache, and it
  leaves the overlays in place. On the page above the card still shows the statistics
  of before the update after the re-scan has run: the cache holds them, the scan skips
  the card because it has an overlay, and no second request for statistics is sent.
\<close>

theorem database_update_keeps_stale_statistics:
  "statsCache (onMessage m s) = statsCache s
   \<and> statsCache displaying (JNum 101) = Some oldStats
   \<and> map mtype (sent displaying) = [''getCardStats'']
   \<and> liveOverlays displaying = [2]
   \<and> timers (onMessage databaseUpdated (at 2000000 displaying))
       = [(1, 1030000, CleanupInterval), (3, 2000500, DatabaseUpdatedRescan)]
   \<and> scanLog afterUpdate = [2001000, 1000500]
   \<and> statsCache afterUpdate (JNum 101) = Some oldStats
   \<and> map mtype (sent afterUpdate) = [''getCardStats'']
   \<and> liveOverlays afterUpdate = [2]"
proof -
  have general: "statsCache (onMessage m s) = statsCache s"
    by (simp add: onMessage_def setTimeout_def clearAllProcessedFlags_statsCache split: option.splits)
  have "observed displaying
      = ([1000500], Some oldStats, [''getCardStats''], [2], [(1, 1030000, CleanupInterval)])"
    by code_simp
  then have before: "statsCache displaying (JNum 101) = Some oldStats
      \<and> map mtype (sent displaying) = [''getCardStats''] \<and> liveOverlays displaying = [2]"
    by (simp add: observed_def)
  have "observed (onMessage databaseUpdated (at 2000000 displaying))
      = ([1000500], Some oldStats, [''getCardStats''], [2],
         [(1, 1030000, CleanupInterval), (3, 2000500, DatabaseUpdatedRescan)])"
    by code_simp
  then have announced: "timers (onMessage databaseUpdated (at 2000000 displaying))
      = [(1, 1030000, CleanupInterval), (3, 2000500, DatabaseUpdatedRescan)]"
    by (simp add: observed_def)
  have "observed afterUpdate
      = ([2001000, 1000500], Some oldStats, [''getCardStats''], [2], [(1, 1030000, CleanupInterval)])"
    by code_simp
  then have after: "scanLog afterUpdate = [2001000, 1000500]
      \<and> statsCache afterUpdate (JNum 101) = Some oldStats
      \<and> map mtype (sent afterUpdate) = [''getCardStats'']
      \<and> liveOverlays afterUpdate = [2]"
    by (simp add: observed_def)
  from general before announced after show ?thesis by simp
qed


section \<open>The mutation observer ignores the overlays\<close>

text \<open>
  An element touches an overlay subtree (the subtree of a \<^verbatim>\<open>.card-stats-overlay\<close>
  element, which holds its \<^verbatim>\<open>.card-stats\<close> container) when it is such an element,
  has one among the elements of its chain to the root, or has one among its descendants.
  The callback also passes over an added element that is a \<^verbatim>\<open>.card-stats\<close> element
  or lies inside one.
\<close>

definition touchesOverlay :: "state \<Rightarrow> node \<Rightarrow> bool" where
  "touchesOverlay s el =
     (hasClass el ''card-stats-overlay''
      \<or> (\<exists>n \<in> set (pathOf s (nid el)). hasClass n ''card-stats-overlay'')
      \<or> (\<exists>d \<in> set (descendants el). hasClass d ''card-stats-overlay''))"

definition insideCardStats :: "state \<Rightarrow> node \<Rightarrow> bool" where
  "insideCardStats s el =
     (hasClass el ''card-stats'' \<or> (\<exists>n \<in> set (pathOf s (nid el)). hasClass n ''card-stats''))"

text \<open>
  A record is an overlay mutation when every element it adds, or the target of its
  attribute change, touches an overlay subtree; the nodes it removes are not restricted.
  A batch has only overlay mutations when each record is one on the page as the callback
  has left it when it comes to the record (the handling of removed nodes may clear flags).
\<close>

definition overlayMutation :: "state \<Rightarrow> mutation \<Rightarrow> bool" where
  "overlayMutation s m =
     (case m of
        ChildList added removed \<Rightarrow>
          (\<forall>n \<in> set added. case n of
               OtherNode \<Rightarrow> True
             | ElementNode e \<Rightarrow>
                 (case lookupElement s e of
                    None \<Rightarrow> True
                  | Some el \<Rightarrow> nid el = e \<and> (touchesOverlay s el \<or> insideCardStats s el)))
      | Attributes tgt a \<Rightarrow>
          (case lookupElement s tgt of None \<Rightarrow> True | Some el \<Rightarrow> nid el = tgt \<and> touchesOverlay s el))"

fun overlayOnly :: "state \<Rightarrow> mutation list \<Rightarrow> bool" where
  "overlayOnly s [] = True"
| "overlayOnly s (m # ms) =
     (overlayMutation s m
      \<and> overlayOnly (snd (mutationRecord (\<lparr>shouldProcess = False, isTradePageUpdate = False, hasCardChanges = False\<rparr>, s) m)) ms)"

lemma matchesPath_single: "matchesPath [c] (e # anc) = matchesCompound c e"
  by (simp add: matchesPath_def)

lemma closestIn_single: "(closestIn [c] path = None) = (\<forall>n \<in> set path. \<not> matchesCompound c n)"
  by (induction path) (auto simp: matchesPath_single)

lemma isOverlay_class: "matchesCompound overlaySelector n = hasClass n ''card-stats-overlay''"
  by (simp add: matchesCompound_def overlaySelector_def)

lemma closest_overlay:
  "(closest s e [overlaySelector] = None) = (\<forall>n \<in> set (pathOf s e). \<not> hasClass n ''card-stats-overlay'')"
  by (simp add: closest_def closestIn_single isOverlay_class)

lemma closest_cardStats:
  "(closest s e [[Class ''card-stats'']] = None) = (\<forall>n \<in> set (pathOf s e). \<not> hasClass n ''card-stats'')"
  by (simp add: closest_def closestIn_single matchesCompound_def)

lemma querySelector_overlay:
  "(querySelector el overlaySelector = None) = (\<forall>d \<in> set (descendants el). \<not> hasClass d ''card-stats-overlay'')"
  by (auto simp: querySelector_def find_None_iff isOverlay_class)

lemma isTradeRelated_overlay:
  assumes "touchesOverlay s el"
  shows "\<not> isTradeRelatedElement s el a"
proof -
  from assms have guard: "hasClass el ''card-stats-overlay''
      \<or> closest s (nid el) [overlaySelector] \<noteq> None
      \<or> querySelector el overlaySelector \<noteq> None"
    unfolding touchesOverlay_def closest_overlay querySelector_overlay by blast
  show ?thesis
  proof (cases a)
    case None
    then show ?thesis by (simp add: isTradeRelatedElement_def)
  next
    case (Some x)
    then show ?thesis using guard by (simp add: isTradeRelatedElement_def)
  qed
qed

lemma addedElement_ignored:
  assumes "lookupElement s e = Some el" and "nid el = e"
    and "touchesOverlay s el \<or> insideCardStats s el"
  shows "addedNode s f (ElementNode e) = f"
proof -
  from assms(2,3) have "hasClass el ''card-stats-overlay''
      \<or> closest s e [overlaySelector] \<noteq> None
      \<or> querySelector el overlaySelector \<noteq> None
      \<or> hasClass el ''card-stats''
      \<or> closest s e [[Class ''card-stats'']] \<noteq> None"
    unfolding touchesOverlay_def insideCardStats_def closest_overlay closest_cardStats
      querySelector_overlay by blast
  then show ?thesis using assms(1) by (simp add: addedNode_def)
qed

lemma addedNode_ignored:
  assumes "case n of OtherNode \<Rightarrow> True | ElementNode e \<Rightarrow>
                 (case lookupElement s e of
                    None \<Rightarrow> True
                  | Some el \<Rightarrow> nid el = e \<and> (touchesOverlay s el \<or> insideCardStats s el))"
  shows "addedNode s f n = f"
proof (cases n)
  case OtherNode
  then show ?thesis by (simp add: addedNode_def)
next
  case (ElementNode e)
  show ?thesis
  proof (cases "lookupElement s e")
    case None
    then show ?thesis using ElementNode by (simp add: addedNode_def)
  next
    case (Some el)
    with assms ElementNode have "nid el = e" "touchesOverlay s el \<or> insideCardStats s el" by simp_all
    from addedElement_ignored [OF Some this] ElementNode show ?thesis by simp
  qed
qed

lemma fold_addedNode_ignored:
  "\<forall>n \<in> set added. (case n of OtherNode \<Rightarrow> True | ElementNode e \<Rightarrow>
                 (case lookupElement s e of
                    None \<Rightarrow> True
                  | Some el \<Rightarrow> nid el = e \<and> (touchesOverlay s el \<or> insideCardStats s el))) \<Longrightarrow> foldl (addedNode s) f added = f"
  by (induction added arbitrary: f) (simp_all add: addedNode_ignored)

lemma mutationRecord_ignored:
  assumes "overlayMutation s m"
  shows "fst (mutationRecord (f, s) m) = f"
proof (cases m)
  case (ChildList added removed)
  with assms show ?thesis
    by (simp add: mutationRecord_def overlayMutation_def fold_addedNode_ignored)
next
  case (Attributes tgt a)
  show ?thesis
  proof (cases "lookupElement s tgt")
    case None
    then show ?thesis using Attributes by (simp add: mutationRecord_def)
  next
    case (Some el)
    with assms Attributes have "touchesOverlay s el" by (simp add: overlayMutation_def)
    then have "\<not> isTradeRelatedElement s el a" by (rule isTradeRelated_overlay)
    then show ?thesis using Attributes Some by (simp add: mutationRecord_def)
  qed
qed

lemma mutationRecord_state: "snd (mutationRecord (f, s) m) = snd (mutationRecord (g, s) m)"
  by (cases m) (simp_all add: mutationRecord_def split: option.splits)


lemma fold_mutationRecord_ignored:
  "overlayOnly s ms \<Longrightarrow> fst (foldl mutationRecord (f, s) ms) = f"
proof (induction ms arbitrary: s f)
  case Nil
  then show ?case by simp
next
  case (Cons m ms)
  let ?f0 = "\<lparr>shouldProcess = False, isTradePageUpdate = False, hasCardChanges = False\<rparr>"
  from Cons.prems have m: "overlayMutation s m" and rest: "overlayOnly (snd (mutationRecord (?f0, s) m)) ms"
    by simp_all
  have "mutationRecord (f, s) m = (f, snd (mutationRecord (?f0, s) m))"
    using mutationRecord_ignored [OF m, of f] mutationRecord_state [of f s m ?f0]
    by (cases "mutationRecord (f, s) m") simp
  then show ?case using Cons.IH [OF rest, of f] by simp
qed

definition domOnly :: "state \<Rightarrow> state \<Rightarrow> bool" where
  "domOnly s s' = (\<exists>d t. s' = s\<lparr>document := d, detached := t\<rparr>)"

lemma domOnly_refl: "domOnly s s"
proof -
  have "s = s\<lparr>document := document s, detached := detached s\<rparr>" by simp
  then show ?thesis unfolding domOnly_def by blast
qed

lemma domOnly_trans:
  assumes "domOnly s s'" and "domOnly s' s''"
  shows "domOnly s s''"
proof -
  from assms(1) obtain d t where a: "s' = s\<lparr>document := d, detached := t\<rparr>"
    unfolding domOnly_def by blast
  from assms(2) obtain d' t' where b: "s'' = s'\<lparr>document := d', detached := t'\<rparr>"
    unfolding domOnly_def by blast
  have "s'' = s\<lparr>document := d', detached := t'\<rparr>" unfolding b a by simp
  then show ?thesis unfolding domOnly_def by blast
qed

lemma domOnly_updateElement: "domOnly s (updateElement i g s)"
  unfolding domOnly_def updateElement_def by blast

lemma domOnly_removedNode: "domOnly s (removedNode s n)"
  by (simp add: removedNode_def clearProcessedFlags_def domOnly_updateElement domOnly_refl
      split: mnode.splits option.splits)

lemma domOnly_fold_removed: "domOnly s (foldl removedNode s removed)"
proof (induction removed arbitrary: s)
  case Nil
  show ?case by (simp add: domOnly_refl)
next
  case (Cons n ns)
  from domOnly_trans [OF domOnly_removedNode Cons.IH] show ?case by simp
qed

lemma domOnly_mutationRecord: "domOnly s (snd (mutationRecord (f, s) m))"
  by (cases m)
     (simp_all add: mutationRecord_def domOnly_fold_removed domOnly_updateElement domOnly_refl
        split: option.splits)

lemma domOnly_fold_mutationRecord: "domOnly s (snd (foldl mutationRecord (f, s) ms))"
proof (induction ms arbitrary: s f)
  case Nil
  show ?case by (simp add: domOnly_refl)
next
  case (Cons m ms)
  obtain f' s' where step: "mutationRecord (f, s) m = (f', s')"
    by (cases "mutationRecord (f, s) m") auto
  have "domOnly s s'" using domOnly_mutationRecord [of s f m] step by simp
  from domOnly_trans [OF this Cons.IH [of s' f']] step show ?case by simp
qed

lemma domOnly_fields:
  assumes "domOnly s s'"
  shows "timers s' = timers s" and "s' = s\<lparr>document := document s', detached := detached s'\<rparr>"
proof -
  from assms obtain d t where a: "s' = s\<lparr>document := d, detached := t\<rparr>"
    unfolding domOnly_def by blast
  show "timers s' = timers s" unfolding a by simp
  show "s' = s\<lparr>document := document s', detached := detached s'\<rparr>" unfolding a by simp
qed

text \<open>
  C2. A batch of overlay mutations leaves the three flags of the callback unset, so the
  callback sets no timer: no re-scan is scheduled. Nothing of the state changes but,
  possibly, the page itself (flags cleared below removed containers). In particular the
  record of an inserted overlay, and records of attribute changes inside an overlay or on
  a card that holds one, trigger nothing.
\<close>

theorem overlay_mutations_schedule_no_rescan:
  assumes "overlayOnly s ms"
  shows "timers (mutationCallback ms s) = timers s
         \<and> mutationCallback ms s
             = s\<lparr>document := document (mutationCallback ms s),
                 detached := detached (mutationCallback ms s)\<rparr>"
proof -
  let ?f0 = "\<lparr>shouldProcess = False, isTradePageUpdate = False, hasCardChanges = False\<rparr>"
  obtain f s1 where run: "foldl mutationRecord (?f0, s) ms = (f, s1)"
    by (cases "foldl mutationRecord (?f0, s) ms") auto
  from fold_mutationRecord_ignored [OF assms, of ?f0] run have f: "f = ?f0" by simp
  have result: "mutationCallback ms s = s1" using run f by (simp add: mutationCallback_def)
  have dom: "domOnly s s1" using domOnly_fold_mutationRecord [of s ?f0 ms] run by simp
  from domOnly_fields [OF dom] show ?thesis unfolding result by blast
qed


theorem overlay_mutations_schedule_no_rescan_witness:
  "overlayOnly displaying
     [ChildList [ElementNode 2] [], Attributes 3 (Some ''class''), Attributes 1 (Some ''data-id''),
      ChildList [ElementNode 4, OtherNode] []]
   \<and> timers (mutationCallback
        [ChildList [ElementNode 2] [], Attributes 3 (Some ''class''), Attributes 1 (Some ''data-id''),
         ChildList [ElementNode 4, OtherNode] []] displaying) = timers displaying"
proof -
  have h: "overlayOnly displaying
     [ChildList [ElementNode 2] [], Attributes 3 (Some ''class''), Attributes 1 (Some ''data-id''),
      ChildList [ElementNode 4, OtherNode] []]"
    by code_simp
  from overlay_mutations_schedule_no_rescan [OF h] h show ?thesis by blast
qed

text \<open>For contrast: a card added to a page does set the timer of the re-scan.\<close>

lemma card_mutation_schedules_rescan:
  "timers (mutationCallback [ChildList [ElementNode 1] []] (construct fiveCards ''/inventory/'' 0 6))
     = [(1, 30000, CleanupInterval), (2, 300, MutationRescan)]"
  by code_simp


section \<open>The navigation coordinator\<close>

text \<open>The two timers of a rebuild: its watchdog and its finishing timer.\<close>

fun navTask :: "task \<Rightarrow> bool" where
  "navTask NavigationWatchdog = True"
| "navTask (NavigationFinish w) = True"
| "navTask t = False"

text \<open>
  Two relations between the state before and after a method. \<open>timerFrame\<close>: the clock,
  the in-flight flag and the two stored timer ids are as before, and the timer list has
  only grown, by timers with fresh ids, none of them a timer of a rebuild.
  \<open>sameTimers\<close>: all of these, the list included, are as before. Every method of the
  script other than the trigger handler, the activity handler and the timer callbacks
  satisfies one of them.
\<close>

definition timerFrame :: "state \<Rightarrow> state \<Rightarrow> bool" where
  "timerFrame s s' =
     (now s' = now s \<and> isNavigationProcessing s' = isNavigationProcessing s
      \<and> navigationTimeout s' = navigationTimeout s \<and> userInactivityTimer s' = userInactivityTimer s
      \<and> nextTimer s \<le> nextTimer s'
      \<and> (\<exists>new. timers s' = timers s @ new
             \<and> (\<forall>tm \<in> set new. nextTimer s \<le> fst tm \<and> fst tm < nextTimer s'
                                   \<and> \<not> navTask (snd (snd tm)))
             \<and> distinct (map fst new)))"

lemma timerFrame_refl: "timerFrame s s"
  by (simp add: timerFrame_def)

lemma timerFrame_trans:
  assumes "timerFrame s s'" and "timerFrame s' s''"
  shows "timerFrame s s''"
proof -
  from assms(1) obtain new where a: "timers s' = timers s @ new"
    "\<forall>tm \<in> set new. nextTimer s \<le> fst tm \<and> fst tm < nextTimer s'" "distinct (map fst new)"
    and an: "\<forall>tm \<in> set new. \<not> navTask (snd (snd tm))"
    unfolding timerFrame_def by blast
  from assms(2) obtain new' where b: "timers s'' = timers s' @ new'"
    "\<forall>tm \<in> set new'. nextTimer s' \<le> fst tm \<and> fst tm < nextTimer s''" "distinct (map fst new')"
    and bn: "\<forall>tm \<in> set new'. \<not> navTask (snd (snd tm))"
    unfolding timerFrame_def by blast
  from assms have le: "nextTimer s \<le> nextTimer s'" "nextTimer s' \<le> nextTimer s''"
    unfolding timerFrame_def by blast+
  have 1: "timers s'' = timers s @ (new @ new')" using a(1) b(1) by simp
  have 2: "\<forall>tm \<in> set (new @ new'). nextTimer s \<le> fst tm \<and> fst tm < nextTimer s''"
    using a(2) b(2) le by fastforce
  have 3: "distinct (map fst (new @ new'))"
    using a(2,3) b(2,3) by fastforce
  have 4: "\<forall>tm \<in> set (new @ new'). nextTimer s \<le> fst tm \<and> fst tm < nextTimer s''
              \<and> \<not> navTask (snd (snd tm))"
    using 2 an bn by auto
  have 5: "nextTimer s \<le> nextTimer s''" using le by simp
  from assms have 6: "now s'' = now s" "isNavigationProcessing s'' = isNavigationProcessing s"
      "navigationTimeout s'' = navigationTimeout s" "userInactivityTimer s'' = userInactivityTimer s"
    unfolding timerFrame_def by simp_all
  from 1 3 4 5 6 show ?thesis unfolding timerFrame_def by blast
qed

lemma timerFrame_setTimeout: "\<not> navTask t \<Longrightarrow> timerFrame s (snd (setTimeout t d s))"
  by (simp add: timerFrame_def setTimeout_def)

lemma timerFrame_fold:
  assumes "\<And>st x. timerFrame st (f st x)"
  shows "timerFrame s (foldl f s xs)"
proof (induction xs arbitrary: s)
  case Nil
  show ?case by (simp add: timerFrame_refl)
next
  case (Cons x xs)
  from timerFrame_trans [OF assms [of s x] Cons.IH [of "f s x"]] show ?case by simp
qed

lemma timerFrame_updateElement: "timerFrame s (updateElement i g s)"
  by (simp add: timerFrame_def updateElement_def)


definition sameTimers :: "state \<Rightarrow> state \<Rightarrow> bool" where
  "sameTimers s s' =
     (now s' = now s \<and> isNavigationProcessing s' = isNavigationProcessing s
      \<and> navigationTimeout s' = navigationTimeout s \<and> userInactivityTimer s' = userInactivityTimer s
      \<and> timers s' = timers s \<and> nextTimer s' = nextTimer s)"

lemma sameTimers_refl: "sameTimers s s"
  by (simp add: sameTimers_def)

lemma sameTimers_trans: "sameTimers s s' \<Longrightarrow> sameTimers s' s'' \<Longrightarrow> sameTimers s s''"
  by (simp add: sameTimers_def)

lemma sameTimers_frame: "sameTimers s s' \<Longrightarrow> timerFrame s s'"
  by (simp add: sameTimers_def timerFrame_def)

lemma sameTimers_fold:
  assumes "\<And>st x. sameTimers st (f st x)"
  shows "sameTimers s (foldl f s xs)"
proof (induction xs arbitrary: s)
  case Nil
  show ?case by (simp add: sameTimers_refl)
next
  case (Cons x xs)
  from sameTimers_trans [OF assms [of s x] Cons.IH [of "f s x"]] show ?case by simp
qed

lemma sameTimers_updateElement: "sameTimers s (updateElement i g s)"
  by (simp add: sameTimers_def updateElement_def)

lemma sameTimers_observe: "sameTimers s (observe e s)"
  by (simp add: sameTimers_def observe_def split: option.splits)

lemma sameTimers_observe_update: "sameTimers s (observe e (updateElement i g s))"
  by (rule sameTimers_trans [OF sameTimers_updateElement sameTimers_observe])

lemma sameTimers_registerCard: "sameTimers s (registerCard sel s e)"
  by (simp add: registerCard_def sameTimers_refl sameTimers_observe_update split: option.splits)

lemma sameTimers_processExistingCards: "sameTimers s (processExistingCards s)"
proof -
  have a: "sameTimers s (s\<lparr>scanLog := now s # scanLog s\<rparr>)" by (simp add: sameTimers_def)
  have b: "sameTimers st (foldl (registerCard sel) st (documentQuerySelectorAll st (selector sel)))"
    for st sel
    by (rule sameTimers_fold) (rule sameTimers_registerCard)
  have c: "sameTimers s0 (foldl (\<lambda>st sel. foldl (registerCard sel) st
      (documentQuerySelectorAll st (selector sel))) s0 cardSelectors)" for s0
    by (rule sameTimers_fold) (rule b)
  show ?thesis
    unfolding processExistingCards_def
    using sameTimers_trans [OF a c] by (simp add: sameTimers_refl)
qed

lemma timerFrame_debounced: "timerFrame s (processExistingCardsDebounced s)"
  by (simp add: processExistingCardsDebounced_def Let_def timerFrame_def setTimeout_def)

lemma sameTimers_createStatsOverlay: "sameTimers s (snd (createStatsOverlay st c s))"
  by (simp add: createStatsOverlay_def Let_def sameTimers_def)

lemma sameTimers_insertOverlay: "sameTimers s (insertOverlay e ov sel s)"
  by (simp add: insertOverlay_def Let_def sameTimers_refl sameTimers_updateElement
      split: option.splits insertion.splits)

lemma sameTimers_finishOverlay: "sameTimers s (finishOverlay c st s)"
proof -
  obtain ov s1 where cr: "createStatsOverlay st c s = (ov, s1)"
    by (cases "createStatsOverlay st c s") auto
  have a: "sameTimers s s1" using sameTimers_createStatsOverlay [of s st c] cr by simp
  show ?thesis
  proof (cases "find (\<lambda>sel. matches s1 (element c) (selector sel)) cardSelectors")
    case None
    then show ?thesis using a cr by (simp add: finishOverlay_def)
  next
    case (Some sel)
    have "sameTimers s1 (insertOverlay (element c) ov sel s1)" by (rule sameTimers_insertOverlay)
    with a have "sameTimers s (insertOverlay (element c) ov sel s1)" by (rule sameTimers_trans)
    then show ?thesis using cr Some by (simp add: finishOverlay_def Let_def sameTimers_def)
  qed
qed

lemma timerFrame_remeltGuard: "remeltGuard el s = Some s1 \<Longrightarrow> timerFrame s s1"
  by (auto simp: remeltGuard_def Let_def timerFrame_def setTimeout_def split: if_splits option.splits)

text \<open>What \<^verbatim>\<open>addStatsOverlay\<close> does to an element it admits, before the statistics are looked up.\<close>

definition admit :: "card \<Rightarrow> node \<Rightarrow> state \<Rightarrow> state" where
  "admit c el s1 =
     updateElement (element c) (setAttribute ''data-animestars-processed'' ''true'')
       (if querySelectorAll el overlaySelector \<noteq> []
        then updateElement (element c) (removeWhere isOverlay) s1 else s1)"

lemma addStatsOverlay_cases:
  obtains (refused) "addStatsOverlay c s = s"
  | (skipped) el s1 where "lookupElement s (element c) = Some el" "remeltGuard el s = Some s1"
      "addStatsOverlay c s = s1"
  | (cached) el s1 stats where "lookupElement s (element c) = Some el" "remeltGuard el s = Some s1"
      "documentContains s (element c)"
      "querySelector el overlaySelector = None" "\<not> hasAttribute el ''data-animestars-processed''"
      "statsCache s1 (cardId c) = Some stats"
      "addStatsOverlay c s = finishOverlay c stats (admit c el s1)"
  | (waiting) el s1 where "lookupElement s (element c) = Some el" "remeltGuard el s = Some s1"
      "documentContains s (element c)"
      "querySelector el overlaySelector = None" "\<not> hasAttribute el ''data-animestars-processed''"
      "statsCache s1 (cardId c) = None"
      "addStatsOverlay c s
         = (admit c el s1)\<lparr>sent := getCardStatsMessage (cardId c) # sent s1,
                            inFlight := inFlight s1 @ [c]\<rparr>"
proof (cases "(\<not> isUnlimitedPage s \<and> currentOverlaysCount s \<ge> MAX_TOTAL_OVERLAYS)
               \<or> \<not> documentContains s (element c)")
  case True
  then have "addStatsOverlay c s = s" by (auto simp: addStatsOverlay_def)
  then show ?thesis by (rule refused)
next
  case admitted: False
  show ?thesis
  proof (cases "lookupElement s (element c)")
    case None
    then have "addStatsOverlay c s = s" by (simp add: addStatsOverlay_def)
    then show ?thesis by (rule refused)
  next
    case (Some el)
    show ?thesis
    proof (cases "remeltGuard el s")
      case None
      then have "addStatsOverlay c s = s" using Some by (simp add: addStatsOverlay_def)
      then show ?thesis by (rule refused)
    next
      case guard: (Some s1)
      show ?thesis
      proof (cases "querySelector el overlaySelector \<noteq> None \<or> hasAttribute el ''data-animestars-processed''")
        case True
        then have "addStatsOverlay c s = s1" using admitted Some guard by (auto simp: addStatsOverlay_def)
        with Some guard show ?thesis by (rule skipped)
      next
        case fresh: False
        have cache: "statsCache (admit c el s1) = statsCache s1"
          by (simp add: admit_def updateElement_def)
        have snt: "sent (admit c el s1) = sent s1" "inFlight (admit c el s1) = inFlight s1"
          by (simp_all add: admit_def updateElement_def)
        show ?thesis
        proof (cases "statsCache s1 (cardId c)")
          case None
          then have "addStatsOverlay c s
              = (admit c el s1)\<lparr>sent := getCardStatsMessage (cardId c) # sent s1,
                                 inFlight := inFlight s1 @ [c]\<rparr>"
            using admitted Some guard fresh cache snt
            by (auto simp: addStatsOverlay_def Let_def admit_def)
          with Some guard admitted fresh None show ?thesis by (intro waiting) auto
        next
          case (Some stats)
          then have "addStatsOverlay c s = finishOverlay c stats (admit c el s1)"
            using admitted \<open>lookupElement s (element c) = Some el\<close> guard fresh cache
            by (auto simp: addStatsOverlay_def Let_def admit_def)
          with \<open>lookupElement s (element c) = Some el\<close> guard admitted fresh Some show ?thesis
            by (intro cached) auto
        qed
      qed
    qed
  qed
qed


lemma sameTimers_admit: "sameTimers s (admit c el s)"
  by (simp add: admit_def sameTimers_def updateElement_def)

lemma timerFrame_addStatsOverlay: "timerFrame s (addStatsOverlay c s)"
proof (cases c s rule: addStatsOverlay_cases)
  case refused
  then show ?thesis by (simp add: timerFrame_refl)
next
  case (skipped el s1)
  then show ?thesis by (simp add: timerFrame_remeltGuard)
next
  case (cached el s1 stats)
  have "sameTimers s1 (finishOverlay c stats (admit c el s1))"
    by (rule sameTimers_trans [OF sameTimers_admit sameTimers_finishOverlay])
  from timerFrame_trans [OF timerFrame_remeltGuard [OF cached(2)] sameTimers_frame [OF this]]
  show ?thesis by (simp add: cached(7))
next
  case (waiting el s1)
  have "sameTimers s1 ((admit c el s1)\<lparr>sent := getCardStatsMessage (cardId c) # sent s1,
      inFlight := inFlight s1 @ [c]\<rparr>)"
    using sameTimers_admit [of s1 c el] by (simp add: sameTimers_def)
  from timerFrame_trans [OF timerFrame_remeltGuard [OF waiting(2)] sameTimers_frame [OF this]]
  show ?thesis by (simp add: waiting(7))
qed

lemma sameTimers_findCardId:
  "findCardIdByImageUrlAsync send u s = (r, s') \<Longrightarrow> sameTimers s s'"
  by (auto simp: findCardIdByImageUrlAsync_def Let_def sameTimers_def
      split: option.splits outcome.splits if_splits)

lemma sameTimers_extractCardIdAsync:
  "extractCardIdAsync send el sel s = (r, s') \<Longrightarrow> sameTimers s s'"
  by (auto simp: extractCardIdAsync_def Let_def sameTimers_refl dest: sameTimers_findCardId
      split: option.splits prod.splits if_splits)

lemma timerFrame_visibleCard: "timerFrame s (visibleCard send s e)"
proof (cases "isUserActive s")
  case False
  then show ?thesis by (simp add: visibleCard_def timerFrame_def)
next
  case True
  show ?thesis
  proof (cases "find (\<lambda>sel. matches s e (selector sel)) cardSelectors")
    case None
    then show ?thesis using True by (simp add: visibleCard_def timerFrame_refl)
  next
    case (Some sel)
    show ?thesis
    proof (cases "lookupElement s e")
      case None
      then show ?thesis using True Some by (simp add: visibleCard_def timerFrame_refl)
    next
      case el: (Some el)
      obtain cid s1 where ex: "extractCardIdAsync send el sel s = (cid, s1)"
        by (cases "extractCardIdAsync send el sel s") auto
      have a: "timerFrame s s1" using sameTimers_extractCardIdAsync [OF ex] by (rule sameTimers_frame)
      have b: "timerFrame s (addStatsOverlay x s1)" for x
        by (rule timerFrame_trans [OF a timerFrame_addStatsOverlay])
      show ?thesis using True Some el ex a b by (simp add: visibleCard_def)
    qed
  qed
qed

lemma timerFrame_processVisibleCards: "timerFrame s (processVisibleCards send cards s)"
proof (cases "isUserActive s")
  case False
  then show ?thesis by (simp add: processVisibleCards_def timerFrame_def)
next
  case True
  have "timerFrame s (foldl (visibleCard send) s cards)"
    by (rule timerFrame_fold) (rule timerFrame_visibleCard)
  then show ?thesis using True by (simp add: processVisibleCards_def)
qed

lemma timerFrame_resumeProcessing:
  "timerFrame s (resumeProcessing send s)"
proof (cases "wasProcessingPaused s")
  case False
  then show ?thesis by (simp add: resumeProcessing_def timerFrame_refl)
next
  case True
  let ?s1 = "s\<lparr>wasProcessingPaused := False\<rparr>"
  have a: "timerFrame s ?s1" by (simp add: timerFrame_def)
  have b: "timerFrame ?s1 (?s1\<lparr>pendingCards := []\<rparr>)" by (simp add: timerFrame_def)
  have c: "timerFrame s (processVisibleCards send cards (?s1\<lparr>pendingCards := []\<rparr>))" for cards
    by (rule timerFrame_trans [OF a timerFrame_trans [OF b timerFrame_processVisibleCards]])
  have d: "timerFrame s (snd (setTimeout ResumeRescan 1000 x))" if "timerFrame s x" for x
    by (rule timerFrame_trans [OF that timerFrame_setTimeout]) simp
  show ?thesis using True a c d by (simp add: resumeProcessing_def Let_def)
qed

lemma timerFrame_onMessage: "timerFrame s (onMessage m s)"
  by (simp add: onMessage_def timerFrame_refl clearAllProcessedFlags_def setTimeout_def timerFrame_def
      split: option.splits)

lemma timerFrame_clickHandler: "timerFrame s (clickHandler t s)"
  by (simp add: clickHandler_def timerFrame_refl timerFrame_setTimeout split: option.splits)

lemma timerFrame_changeHandler: "timerFrame s (changeHandler t s)"
  by (simp add: changeHandler_def timerFrame_refl timerFrame_setTimeout split: option.splits)

lemma timerFrame_lootboxClickHandler: "timerFrame s (lootboxClickHandler t s)"
  by (simp add: lootboxClickHandler_def timerFrame_refl timerFrame_setTimeout)

lemma timerFrame_lootboxRescanFired: "timerFrame s (lootboxRescanFired s)"
proof -
  have "sameTimers s (foldl (\<lambda>st c. updateElement c (removeAttribute ''data-animestars-processed'') st) s xs)" for xs
    by (rule sameTimers_fold) (rule sameTimers_updateElement)
  from timerFrame_trans [OF sameTimers_frame [OF this] timerFrame_debounced]
  show ?thesis by (simp add: lootboxRescanFired_def)
qed

lemma timerFrame_lootboxPollFired: "timerFrame s (lootboxPollFired s)"
  by (simp add: lootboxPollFired_def timerFrame_refl timerFrame_debounced)

lemma sameTimers_removeNode: "sameTimers s ((removeNode i s)\<lparr>currentOverlaysCount := k\<rparr>)"
  by (simp add: removeNode_def sameTimers_def)

lemma sameTimers_removeExcess: "sameTimers s (removeExcess k ovs s)"
proof (induction k ovs s rule: removeExcess.induct)
  case (3 k ov ovs s)
  from sameTimers_trans [OF sameTimers_removeNode 3] show ?case by simp
qed (simp_all add: sameTimers_refl)

lemma sameTimers_performCleanup: "sameTimers s (performCleanup s)"
proof -
  have a: "sameTimers s (foldl (\<lambda>st ov. if staleOverlay st ov
      then (removeNode ov st)\<lparr>currentOverlaysCount := currentOverlaysCount st - 1\<rparr> else st) s xs)" for xs
    by (rule sameTimers_fold) (simp add: sameTimers_refl sameTimers_removeNode)
  show ?thesis
    unfolding performCleanup_def Let_def
    using a sameTimers_trans [OF a sameTimers_removeExcess] by simp
qed

lemma sameTimers_statsResponse: "sameTimers s (statsResponse k a s)"
proof -
  have fin: "sameTimers s (finishOverlay c st (s\<lparr>inFlight := x, statsCache := y\<rparr>))" for c st x y
  proof -
    have "sameTimers s (s\<lparr>inFlight := x, statsCache := y\<rparr>)" by (simp add: sameTimers_def)
    from sameTimers_trans [OF this sameTimers_finishOverlay] show ?thesis .
  qed
  have plain: "sameTimers s (s\<lparr>inFlight := x\<rparr>)" for x by (simp add: sameTimers_def)
  show ?thesis
    by (simp add: statsResponse_def Let_def sameTimers_refl fin plain
        split: outcome.splits option.splits prod.splits)
qed


lemma sameTimers_removedNode: "sameTimers s (removedNode s n)"
  by (simp add: removedNode_def clearProcessedFlags_def sameTimers_refl sameTimers_updateElement
      split: mnode.splits option.splits)

lemma sameTimers_mutationRecord: "sameTimers s (snd (mutationRecord (f, s) m))"
proof (cases m)
  case (ChildList added removed)
  have "sameTimers s (foldl removedNode s removed)"
    by (rule sameTimers_fold) (rule sameTimers_removedNode)
  then show ?thesis using ChildList by (simp add: mutationRecord_def)
next
  case (Attributes tgt a)
  then show ?thesis
    by (simp add: mutationRecord_def sameTimers_refl sameTimers_updateElement split: option.splits)
qed

lemma sameTimers_fold_mutationRecord: "sameTimers s (snd (foldl mutationRecord (f, s) ms))"
proof (induction ms arbitrary: s f)
  case Nil
  show ?case by (simp add: sameTimers_refl)
next
  case (Cons m ms)
  obtain f' s' where st: "mutationRecord (f, s) m = (f', s')"
    by (cases "mutationRecord (f, s) m") auto
  have "sameTimers s s'" using sameTimers_mutationRecord [of s f m] st by simp
  from sameTimers_trans [OF this Cons.IH [of s' f']] st show ?case by simp
qed

lemma timerFrame_mutationCallback: "timerFrame s (mutationCallback ms s)"
proof -
  let ?f0 = "\<lparr>shouldProcess = False, isTradePageUpdate = False, hasCardChanges = False\<rparr>"
  obtain f s1 where r: "foldl mutationRecord (?f0, s) ms = (f, s1)"
    by (cases "foldl mutationRecord (?f0, s) ms") auto
  have a: "timerFrame s s1"
    using sameTimers_fold_mutationRecord [of s ?f0 ms] r by (simp add: sameTimers_frame)
  have b: "timerFrame s1 (clearAllProcessedFlags s1)"
    by (simp add: clearAllProcessedFlags_def timerFrame_def)
  have c: "timerFrame s (snd (setTimeout t d s1))" if "\<not> navTask t" for t d
    by (rule timerFrame_trans [OF a timerFrame_setTimeout [OF that]])
  have d: "timerFrame s (snd (setTimeout t d (clearAllProcessedFlags s1)))" if "\<not> navTask t" for t d
    by (rule timerFrame_trans [OF a timerFrame_trans [OF b timerFrame_setTimeout [OF that]]])
  show ?thesis using r a c d by (simp add: mutationCallback_def Let_def)
qed

lemma timerFrame_postInit:
  "timerFrame s (processExistingCardsDebounced
     (setupNavigationTriggers (startDOMObserver (initLazyLoading (s\<lparr>isInitialized := True\<rparr>)))))"
proof -
  let ?a = "initLazyLoading (s\<lparr>isInitialized := True\<rparr>)"
  have a: "timerFrame s ?a" by (simp add: initLazyLoading_def timerFrame_def)
  have b: "timerFrame ?a (startDOMObserver ?a)"
    by (simp add: startDOMObserver_def setInterval_def timerFrame_refl timerFrame_setTimeout)
  have c: "timerFrame x (setupNavigationTriggers x)" for x
    by (simp add: setupNavigationTriggers_def Let_def timerFrame_def)
  from timerFrame_trans [OF a timerFrame_trans [OF b timerFrame_trans [OF c timerFrame_debounced]]]
  show ?thesis .
qed

lemma timerFrame_initAttempt: "initAttempt send a s = (r, s') \<Longrightarrow> timerFrame s s'"
  using timerFrame_postInit [of s]
  by (auto simp: initAttempt_def timerFrame_refl split: outcome.splits option.splits if_splits)

lemma timerFrame_initRetryLoop: "initRetryLoop send a n s = (r, s') \<Longrightarrow> timerFrame s s'"
proof (induction n arbitrary: a s)
  case 0
  then show ?case by (simp add: timerFrame_refl)
next
  case (Suc n)
  obtain r1 s1 where at: "initAttempt send a s = (r1, s1)"
    by (cases "initAttempt send a s") auto
  have f1: "timerFrame s s1" by (rule timerFrame_initAttempt [OF at])
  show ?case
  proof (cases r1)
    case (Inr u)
    with Suc.prems at f1 show ?thesis by simp
  next
    case (Inl e)
    show ?thesis
    proof (cases "a < maxRetryAttempts")
      case False
      with Suc.prems at Inl f1 show ?thesis by simp
    next
      case True
      have f2: "timerFrame s1 (s1\<lparr>retryDelay := 2 * retryDelay s1\<rparr>)" by (simp add: timerFrame_def)
      from Suc.prems at Inl True
      have "initRetryLoop send (Suc a) n (s1\<lparr>retryDelay := 2 * retryDelay s1\<rparr>) = (r, s')" by simp
      from timerFrame_trans [OF f1 timerFrame_trans [OF f2 Suc.IH [OF this]]] show ?thesis .
    qed
  qed
qed

lemma timerFrame_init: "timerFrame s (init send s)"
proof (cases "isInitialized s")
  case True
  then show ?thesis by (simp add: init_def timerFrame_refl)
next
  case False
  obtain r s1 where l: "initWithRetry send s = (r, s1)" by (cases "initWithRetry send s") auto
  then have f: "timerFrame s s1" unfolding initWithRetry_def by (rule timerFrame_initRetryLoop)
  show ?thesis
  proof (cases r)
    case (Inl e)
    from timerFrame_trans [OF f timerFrame_setTimeout] show ?thesis
      using False l Inl by (simp add: init_def)
  next
    case (Inr u)
    then show ?thesis using False l f by (simp add: init_def)
  qed
qed


text \<open>
  The invariant of the runs. The ids of the pending timers are distinct and already
  handed out; the id kept in \<^verbatim>\<open>navigationTimeout\<close>, if its timer is still pending,
  is that of a queued retry, and the one kept in \<^verbatim>\<open>userInactivityTimer\<close> that of an
  inactivity timer; and while the in-flight flag is set a watchdog is pending that is
  due within five seconds.
\<close>

definition timersOk :: "state \<Rightarrow> bool" where
  "timersOk s =
     ((\<forall>tm \<in> set (timers s). fst tm < nextTimer s) \<and> distinct (map fst (timers s))
      \<and> (\<forall>i d t. navigationTimeout s = Some i \<longrightarrow> (i, d, t) \<in> set (timers s) \<longrightarrow> t = NavigationRetry)
      \<and> (\<forall>i d t. userInactivityTimer s = Some i \<longrightarrow> (i, d, t) \<in> set (timers s) \<longrightarrow> t = UserInactivity)
      \<and> (\<forall>i. navigationTimeout s = Some i \<longrightarrow> i < nextTimer s)
      \<and> (\<forall>i. userInactivityTimer s = Some i \<longrightarrow> i < nextTimer s))"

definition watchdogPending :: "state \<Rightarrow> bool" where
  "watchdogPending s = (\<exists>i d. (i, d, NavigationWatchdog) \<in> set (timers s) \<and> d \<le> now s + 5000)"

definition navInv :: "state \<Rightarrow> bool" where
  "navInv s = (timersOk s \<and> (isNavigationProcessing s \<longrightarrow> watchdogPending s))"

lemma stored_id_frame:
  fixes i n :: nat
  assumes "\<forall>d t. (i, d, t) \<in> set old \<longrightarrow> t = T" and "i < n"
    and "(i, d, t) \<in> set (old @ new)" and "\<forall>tm \<in> set new. n \<le> fst tm \<and> fst tm < m"
  shows "t = T"
proof (cases "(i, d, t) \<in> set old")
  case True
  with assms(1) show ?thesis by blast
next
  case False
  with assms(3) have "(i, d, t) \<in> set new" by simp
  with assms(4) have "n \<le> fst (i, d, t)" by blast
  with assms(2) show ?thesis by simp
qed

lemma timersOk_frame:
  assumes "timersOk s" and "timerFrame s s'"
  shows "timersOk s'"
proof -
  from assms(2) obtain new where n: "timers s' = timers s @ new"
    "\<forall>tm \<in> set new. nextTimer s \<le> fst tm \<and> fst tm < nextTimer s'" "distinct (map fst new)"
    and le: "nextTimer s \<le> nextTimer s'"
    and eq: "navigationTimeout s' = navigationTimeout s" "userInactivityTimer s' = userInactivityTimer s"
    unfolding timerFrame_def by blast
  from assms(1) have old: "\<forall>tm \<in> set (timers s). fst tm < nextTimer s" "distinct (map fst (timers s))"
    and nav: "\<forall>i d t. navigationTimeout s = Some i \<longrightarrow> (i, d, t) \<in> set (timers s) \<longrightarrow> t = NavigationRetry"
    and usr: "\<forall>i d t. userInactivityTimer s = Some i \<longrightarrow> (i, d, t) \<in> set (timers s) \<longrightarrow> t = UserInactivity"
    and navlt: "\<forall>i. navigationTimeout s = Some i \<longrightarrow> i < nextTimer s"
    and usrlt: "\<forall>i. userInactivityTimer s = Some i \<longrightarrow> i < nextTimer s"
    unfolding timersOk_def by blast+
  have 1: "\<forall>tm \<in> set (timers s'). fst tm < nextTimer s'"
    using old(1) n(1,2) le by fastforce
  have 2: "distinct (map fst (timers s'))"
    using old n by fastforce
  have 3: "\<forall>i d t. navigationTimeout s' = Some i \<longrightarrow> (i, d, t) \<in> set (timers s') \<longrightarrow> t = NavigationRetry"
  proof (intro allI impI)
    fix i d t
    assume a: "navigationTimeout s' = Some i" and b: "(i, d, t) \<in> set (timers s')"
    from a eq(1) have a': "navigationTimeout s = Some i" by simp
    from nav a' have "\<forall>d t. (i, d, t) \<in> set (timers s) \<longrightarrow> t = NavigationRetry" by blast
    moreover from navlt a' have "i < nextTimer s" by blast
    moreover from b n(1) have "(i, d, t) \<in> set (timers s @ new)" by simp
    ultimately show "t = NavigationRetry" using n(2) by (rule stored_id_frame)
  qed
  have 4: "\<forall>i d t. userInactivityTimer s' = Some i \<longrightarrow> (i, d, t) \<in> set (timers s') \<longrightarrow> t = UserInactivity"
  proof (intro allI impI)
    fix i d t
    assume a: "userInactivityTimer s' = Some i" and b: "(i, d, t) \<in> set (timers s')"
    from a eq(2) have a': "userInactivityTimer s = Some i" by simp
    from usr a' have "\<forall>d t. (i, d, t) \<in> set (timers s) \<longrightarrow> t = UserInactivity" by blast
    moreover from usrlt a' have "i < nextTimer s" by blast
    moreover from b n(1) have "(i, d, t) \<in> set (timers s @ new)" by simp
    ultimately show "t = UserInactivity" using n(2) by (rule stored_id_frame)
  qed
  have 5: "\<forall>i. navigationTimeout s' = Some i \<longrightarrow> i < nextTimer s'"
    unfolding eq(1) using navlt le by (blast intro: less_le_trans)
  have 6: "\<forall>i. userInactivityTimer s' = Some i \<longrightarrow> i < nextTimer s'"
    unfolding eq(2) using usrlt le by (blast intro: less_le_trans)
  from 1 2 3 4 5 6 show ?thesis unfolding timersOk_def by blast
qed

lemma watchdog_frame:
  assumes "watchdogPending s" and "timerFrame s s'"
  shows "watchdogPending s'"
proof -
  from assms(2) obtain new where "timers s' = timers s @ new" and "now s' = now s"
    unfolding timerFrame_def by blast
  with assms(1) show ?thesis unfolding watchdogPending_def by auto
qed

lemma navInv_frame:
  assumes "navInv s" and "timerFrame s s'"
  shows "navInv s'"
proof -
  from assms(2) have "isNavigationProcessing s' = isNavigationProcessing s"
    unfolding timerFrame_def by blast
  with assms show ?thesis
    unfolding navInv_def using timersOk_frame watchdog_frame by blast
qed

text \<open>Cancelling a timer keeps the rest of the list in order.\<close>

lemma timersOk_clear:
  assumes "timersOk s"
  shows "timersOk (clearTimeout i s)"
  using assms unfolding timersOk_def clearTimeout_def
  by (auto simp: distinct_map_filter)

lemma watchdog_clear:
  assumes "watchdogPending s" and "\<forall>d. (i, d, NavigationWatchdog) \<notin> set (timers s)"
  shows "watchdogPending (clearTimeout i s)"
proof -
  from assms(1) obtain j d where w: "(j, d, NavigationWatchdog) \<in> set (timers s)" "d \<le> now s + 5000"
    unfolding watchdogPending_def by blast
  with assms(2) have "j \<noteq> i" by blast
  with w show ?thesis unfolding watchdogPending_def clearTimeout_def by force
qed


lemma timersOk_set_nav:
  assumes "timersOk s"
  shows "timersOk ((snd (setTimeout NavigationRetry d s))\<lparr>navigationTimeout := Some (nextTimer s)\<rparr>)"
proof -
  from assms have old: "\<forall>tm \<in> set (timers s). fst tm < nextTimer s"
    unfolding timersOk_def by blast
  then have fresh: "(nextTimer s, d', t) \<notin> set (timers s)" for d' t by force
  from assms old fresh show ?thesis
    unfolding timersOk_def setTimeout_def
    by (auto simp: less_Suc_eq)
qed

lemma timersOk_set_user:
  assumes "timersOk s"
  shows "timersOk ((snd (setTimeout UserInactivity d s))\<lparr>userInactivityTimer := Some (nextTimer s)\<rparr>)"
proof -
  from assms have old: "\<forall>tm \<in> set (timers s). fst tm < nextTimer s"
    unfolding timersOk_def by blast
  then have fresh: "(nextTimer s, d', t) \<notin> set (timers s)" for d' t by force
  from assms old fresh show ?thesis
    unfolding timersOk_def setTimeout_def
    by (auto simp: less_Suc_eq)
qed

lemma navInv_now:
  assumes "navInv s" and "now s \<le> t"
  shows "navInv (s\<lparr>now := t\<rparr>)"
proof -
  have "watchdogPending (s\<lparr>now := t\<rparr>)" if "watchdogPending s"
  proof -
    from that obtain i d where "(i, d, NavigationWatchdog) \<in> set (timers s)" "d \<le> now s + 5000"
      unfolding watchdogPending_def by blast
    with assms(2) have "(i, d, NavigationWatchdog) \<in> set (timers (s\<lparr>now := t\<rparr>)) \<and> d \<le> now (s\<lparr>now := t\<rparr>) + 5000"
      by simp
    then show ?thesis unfolding watchdogPending_def by blast
  qed
  moreover have "timersOk (s\<lparr>now := t\<rparr>) = timersOk s" by (simp add: timersOk_def)
  ultimately show ?thesis using assms(1) by (simp add: navInv_def)
qed

lemma navInv_at: "navInv s \<Longrightarrow> navInv (at t s)"
  unfolding at_def by (rule navInv_now) simp_all

lemma watchdog_not_stored_nav:
  "timersOk s \<Longrightarrow> navigationTimeout s = Some i \<Longrightarrow> (i, d, NavigationWatchdog) \<notin> set (timers s)"
  unfolding timersOk_def by blast

lemma watchdog_not_stored_user:
  "timersOk s \<Longrightarrow> userInactivityTimer s = Some i \<Longrightarrow> (i, d, NavigationWatchdog) \<notin> set (timers s)"
  unfolding timersOk_def by blast

lemma navInv_clear_user:
  assumes "navInv s" and "userInactivityTimer s = Some i"
  shows "navInv (clearTimeout i s)"
proof -
  from assms(1) have ok: "timersOk s" unfolding navInv_def by blast
  have flag: "isNavigationProcessing (clearTimeout i s) = isNavigationProcessing s"
    by (simp add: clearTimeout_def)
  have "watchdogPending (clearTimeout i s)" if "watchdogPending s"
    using that watchdog_not_stored_user [OF ok assms(2)] by (intro watchdog_clear) auto
  with assms(1) timersOk_clear [OF ok, of i] flag show ?thesis unfolding navInv_def by blast
qed

lemma navInv_clear_nav:
  assumes "navInv s" and "navigationTimeout s = Some i"
  shows "navInv (clearTimeout i s)"
proof -
  from assms(1) have ok: "timersOk s" unfolding navInv_def by blast
  have flag: "isNavigationProcessing (clearTimeout i s) = isNavigationProcessing s"
    by (simp add: clearTimeout_def)
  have "watchdogPending (clearTimeout i s)" if "watchdogPending s"
    using that watchdog_not_stored_nav [OF ok assms(2)] by (intro watchdog_clear) auto
  with assms(1) timersOk_clear [OF ok, of i] flag show ?thesis unfolding navInv_def by blast
qed

lemma watchdog_setTimeout: "watchdogPending s \<Longrightarrow> watchdogPending ((snd (setTimeout t d s))\<lparr>navigationTimeout := x\<rparr>)"
  unfolding watchdogPending_def setTimeout_def by auto

lemma watchdog_setTimeout_user: "watchdogPending s \<Longrightarrow> watchdogPending ((snd (setTimeout t d s))\<lparr>userInactivityTimer := x\<rparr>)"
  unfolding watchdogPending_def setTimeout_def by auto

lemma timersOk_setTimeout:
  assumes "timersOk s"
  shows "timersOk (snd (setTimeout t d s))"
proof -
  from assms have old: "\<forall>tm \<in> set (timers s). fst tm < nextTimer s"
    unfolding timersOk_def by blast
  then have fresh: "(nextTimer s, d', t') \<notin> set (timers s)" for d' t' by force
  from assms old fresh show ?thesis
    unfolding timersOk_def setTimeout_def
    by (auto simp: less_Suc_eq)
qed

lemma watchdog_set: "watchdogPending s \<Longrightarrow> watchdogPending (snd (setTimeout t d s))"
  unfolding watchdogPending_def setTimeout_def by auto

lemma navInv_handleUserActivity:
  assumes "navInv s"
  shows "navInv (handleUserActivity send s)"
proof -
  define s1 where "s1 = (if \<not> isUserActive s then resumeProcessing send (s\<lparr>isUserActive := True\<rparr>) else s)"
  define s2 where "s2 = (case userInactivityTimer s1 of None \<Rightarrow> s1 | Some t \<Rightarrow> clearTimeout t s1)"
  have "timerFrame s (s\<lparr>isUserActive := True\<rparr>)" by (simp add: timerFrame_def)
  from timerFrame_trans [OF this timerFrame_resumeProcessing]
  have "timerFrame s s1" by (simp add: s1_def timerFrame_refl)
  with assms have i1: "navInv s1" by (rule navInv_frame)
  have i2: "navInv s2"
    unfolding s2_def using i1 by (auto split: option.splits intro: navInv_clear_user)
  have "handleUserActivity send s
      = (case setTimeout UserInactivity USER_INACTIVITY_TIMEOUT s2 of
           (t, s3) \<Rightarrow> s3\<lparr>userInactivityTimer := Some t\<rparr>)"
    unfolding handleUserActivity_def Let_def s2_def s1_def ..
  also have "\<dots> = (snd (setTimeout UserInactivity USER_INACTIVITY_TIMEOUT s2))\<lparr>userInactivityTimer := Some (nextTimer s2)\<rparr>"
    by (simp add: setTimeout_def)
  finally have res: "handleUserActivity send s
      = (snd (setTimeout UserInactivity USER_INACTIVITY_TIMEOUT s2))\<lparr>userInactivityTimer := Some (nextTimer s2)\<rparr>" .
  from i2 have ok: "timersOk s2" and w: "isNavigationProcessing s2 \<longrightarrow> watchdogPending s2"
    unfolding navInv_def by blast+
  have flag: "isNavigationProcessing (handleUserActivity send s) = isNavigationProcessing s2"
    unfolding res by (simp add: setTimeout_def)
  show ?thesis
    unfolding navInv_def flag
    using timersOk_set_user [OF ok] w watchdog_setTimeout_user unfolding res by blast
qed


lemma timersOk_fields:
  "timersOk (s\<lparr>isNavigationProcessing := b\<rparr>) = timersOk s"
  "timersOk (s\<lparr>isNavigationProcessing := b, lastNavigationStart := x, navigationCounter := y\<rparr>) = timersOk s"
  by (simp_all add: timersOk_def)

lemma navInv_handleNavigationTrigger:
  assumes "navInv s"
  shows "navInv (handleNavigationTrigger s)"
proof (cases "isNavigationProcessing s")
  case True
  define s1 where "s1 = (case navigationTimeout s of None \<Rightarrow> s | Some t \<Rightarrow> clearTimeout t s)"
  have i1: "navInv s1"
    unfolding s1_def using assms by (auto split: option.splits intro: navInv_clear_nav)
  have flag1: "isNavigationProcessing s1"
    unfolding s1_def using True by (simp add: clearTimeout_def split: option.splits)
  have "handleNavigationTrigger s
      = (case setTimeout NavigationRetry 300 s1 of (t, s2) \<Rightarrow> s2\<lparr>navigationTimeout := Some t\<rparr>)"
    using True unfolding handleNavigationTrigger_def Let_def s1_def by simp
  also have "\<dots> = (snd (setTimeout NavigationRetry 300 s1))\<lparr>navigationTimeout := Some (nextTimer s1)\<rparr>"
    by (simp add: setTimeout_def)
  finally have res: "handleNavigationTrigger s
      = (snd (setTimeout NavigationRetry 300 s1))\<lparr>navigationTimeout := Some (nextTimer s1)\<rparr>" .
  from i1 flag1 have ok: "timersOk s1" and w: "watchdogPending s1" unfolding navInv_def by blast+
  show ?thesis
    unfolding navInv_def res
    using timersOk_set_nav [OF ok] watchdog_setTimeout [OF w] by blast
next
  case False
  define s1 where "s1 = s\<lparr>isNavigationProcessing := True, lastNavigationStart := now s,
                    navigationCounter := navigationCounter s + 1\<rparr>"
  define s2 where "s2 = snd (setTimeout NavigationWatchdog 5000 s1)"
  define s3 where "s3 = removeAllStatsOverlays (clearAllProcessedFlags s2)"
  from assms have ok: "timersOk s" unfolding navInv_def by blast
  have ok1: "timersOk s1" unfolding s1_def using ok by (simp add: timersOk_fields)
  have ok2: "timersOk s2" unfolding s2_def by (rule timersOk_setTimeout [OF ok1])
  have f23: "timerFrame s2 s3"
    unfolding s3_def by (simp add: timerFrame_def removeAllStatsOverlays_def clearAllProcessedFlags_def)
  have ok3: "timersOk s3" using ok2 f23 timersOk_frame by blast
  have w2: "watchdogPending s2"
    unfolding watchdogPending_def s2_def setTimeout_def by auto
  have w3: "watchdogPending s3" using w2 f23 by (rule watchdog_frame)
  have flag3: "isNavigationProcessing s3"
    unfolding s3_def s2_def s1_def
    by (simp add: removeAllStatsOverlays_def clearAllProcessedFlags_def setTimeout_def)
  have w: "nextTimer s = nextTimer s1" by (simp add: s1_def)
  have unfold: "handleNavigationTrigger s
      = (if isRemeltPage s3 then
           resetFlag (nextTimer s1)
             (foldl (\<lambda>st img. updateElement img
                       (removeAttribute ''data-animestars-observing''
                          \<circ> removeAttribute ''data-animestars-processed'') st)
                (s3\<lparr>processingIds := {}\<rparr>)
                (documentQuerySelectorAll (s3\<lparr>processingIds := {}\<rparr>) remeltImageSelector))
         else snd (setTimeout (NavigationFinish (nextTimer s1)) 100 s3))"
    using False unfolding handleNavigationTrigger_def Let_def s3_def s2_def s1_def
    by (simp add: setTimeout_def)
  show ?thesis
  proof (cases "isRemeltPage s3")
    case True
    let ?s4 = "s3\<lparr>processingIds := {}\<rparr>"
    let ?s5 = "foldl (\<lambda>st img. updateElement img
                       (removeAttribute ''data-animestars-observing''
                          \<circ> removeAttribute ''data-animestars-processed'') st)
                ?s4 (documentQuerySelectorAll ?s4 remeltImageSelector)"
    have "timerFrame s3 ?s4" by (simp add: timerFrame_def)
    moreover have "timerFrame ?s4 ?s5"
      by (rule sameTimers_frame, rule sameTimers_fold) (rule sameTimers_updateElement)
    ultimately have "timersOk ?s5" using ok3 timersOk_frame by blast
    then have "timersOk (resetFlag (nextTimer s1) ?s5)"
      unfolding resetFlag_def using timersOk_clear timersOk_fields(1) by simp
    moreover have "\<not> isNavigationProcessing (resetFlag (nextTimer s1) ?s5)"
      by (simp add: resetFlag_def)
    ultimately show ?thesis unfolding unfold navInv_def using True by simp
  next
    case False
    from timersOk_setTimeout [OF ok3] watchdog_set [OF w3]
    show ?thesis unfolding unfold navInv_def using False by simp
  qed
qed


text \<open>The state in which the callback of a fired timer runs.\<close>

definition fired :: "nat \<Rightarrow> int \<Rightarrow> task \<Rightarrow> state \<Rightarrow> state" where
  "fired i due t s =
     s\<lparr>now := max (now s) due,
       timers := (case period t of
                    None \<Rightarrow> filter (\<lambda>tm. fst tm \<noteq> i) (timers s)
                  | Some p \<Rightarrow> map (\<lambda>tm. if fst tm = i then (i, max (now s) due + p, t) else tm)
                                (timers s))\<rparr>"

lemma fireTimer_fired:
  "fireTimer initSend i s =
     (case find (\<lambda>tm. fst tm = i) (timers s) of
        None \<Rightarrow> s
      | Some (j, due, t) \<Rightarrow> runTask initSend t (fired i due t s))"
  by (simp add: fireTimer_def fired_def split: option.splits)

lemma find_SomeD: "find P xs = Some x \<Longrightarrow> x \<in> set xs \<and> P x"
  by (induction xs) (auto split: if_splits)

lemma timersOk_fired:
  assumes "timersOk s" and "(i, due, t) \<in> set (timers s)"
  shows "timersOk (fired i due t s)"
proof (cases "period t")
  case None
  have "fired i due t s = (clearTimeout i s)\<lparr>now := max (now s) due\<rparr>"
    using None by (simp add: fired_def clearTimeout_def)
  moreover have "timersOk ((clearTimeout i s)\<lparr>now := max (now s) due\<rparr>) = timersOk (clearTimeout i s)"
    by (simp add: timersOk_def)
  ultimately show ?thesis using timersOk_clear [OF assms(1), of i] by simp
next
  case (Some p)
  define ts where "ts = map (\<lambda>tm. if fst tm = i then (i, max (now s) due + p, t) else tm) (timers s)"
  have eq: "fired i due t s = s\<lparr>now := max (now s) due, timers := ts\<rparr>"
    using Some by (simp add: fired_def ts_def)
  have ids: "map fst ts = map fst (timers s)" unfolding ts_def by (induction "timers s") auto
  from assms(1) have d: "distinct (map fst (timers s))" unfolding timersOk_def by blast
  have mem: "\<exists>d''. (k, d'', t') \<in> set (timers s)" if "(k, d', t') \<in> set ts" for k d' t'
    using that assms(2) unfolding ts_def by (auto split: if_splits)
  have lt: "\<forall>tm \<in> set ts. fst tm < nextTimer s"
  proof
    fix tm assume "tm \<in> set ts"
    then have "fst tm \<in> set (map fst ts)" by simp
    then have "fst tm \<in> set (map fst (timers s))" by (simp only: ids)
    then obtain tm' where "tm' \<in> set (timers s)" "fst tm' = fst tm" by auto
    with assms(1) show "fst tm < nextTimer s" unfolding timersOk_def by metis
  qed
  have nav: "\<forall>k. navigationTimeout s = Some k \<longrightarrow> (\<forall>d' t'. (k, d', t') \<in> set ts \<longrightarrow> t' = NavigationRetry)"
  proof (intro allI impI)
    fix k d' t' assume a: "navigationTimeout s = Some k" "(k, d', t') \<in> set ts"
    from mem [OF a(2)] obtain d'' where "(k, d'', t') \<in> set (timers s)" by blast
    with assms(1) a(1) show "t' = NavigationRetry" unfolding timersOk_def by blast
  qed
  have usr: "\<forall>k. userInactivityTimer s = Some k \<longrightarrow> (\<forall>d' t'. (k, d', t') \<in> set ts \<longrightarrow> t' = UserInactivity)"
  proof (intro allI impI)
    fix k d' t' assume a: "userInactivityTimer s = Some k" "(k, d', t') \<in> set ts"
    from mem [OF a(2)] obtain d'' where "(k, d'', t') \<in> set (timers s)" by blast
    with assms(1) a(1) show "t' = UserInactivity" unfolding timersOk_def by blast
  qed
  from assms(1) have st: "(\<forall>k. navigationTimeout s = Some k \<longrightarrow> k < nextTimer s)"
      "(\<forall>k. userInactivityTimer s = Some k \<longrightarrow> k < nextTimer s)"
    unfolding timersOk_def by blast+
  show ?thesis unfolding eq timersOk_def using lt ids d nav usr st by simp
qed

lemma watchdog_fired:
  assumes "timersOk s" and "(i, due, t) \<in> set (timers s)" and "t \<noteq> NavigationWatchdog"
    and "watchdogPending s"
  shows "watchdogPending (fired i due t s)"
proof -
  from assms(4) obtain j d where w: "(j, d, NavigationWatchdog) \<in> set (timers s)" "d \<le> now s + 5000"
    unfolding watchdogPending_def by blast
  from assms(1) have dist: "distinct (map fst (timers s))" unfolding timersOk_def by blast
  have "j \<noteq> i"
  proof
    assume "j = i"
    with w(1) assms(2) dist have "NavigationWatchdog = t"
      by (meson eq_key_imp_eq_value prod.inject)
    with assms(3) show False by simp
  qed
  then have "(j, d, NavigationWatchdog) \<in> set (timers (fired i due t s))"
    using w(1) by (cases "period t") (auto simp: fired_def)
  moreover have "d \<le> now (fired i due t s) + 5000" using w(2) by (simp add: fired_def)
  ultimately show ?thesis unfolding watchdogPending_def by blast
qed

lemma navInv_fireTimer:
  assumes "navInv s"
  shows "navInv (fireTimer initSend i s)"
proof (cases "find (\<lambda>tm. fst tm = i) (timers s)")
  case None
  then show ?thesis using assms by (simp add: fireTimer_fired)
next
  case (Some tm)
  obtain j due t where tm: "tm = (j, due, t)" by (cases tm) auto
  from find_SomeD [OF Some] tm have mem: "(i, due, t) \<in> set (timers s)" by auto
  have res: "fireTimer initSend i s = runTask initSend t (fired i due t s)"
    using Some tm by (simp add: fireTimer_fired)
  from assms have ok: "timersOk s" unfolding navInv_def by blast
  have ok1: "timersOk (fired i due t s)" by (rule timersOk_fired [OF ok mem])
  have flag1: "isNavigationProcessing (fired i due t s) = isNavigationProcessing s"
    by (simp add: fired_def)
  let ?s1 = "fired i due t s"
  have other: "navInv ?s1" if "t \<noteq> NavigationWatchdog"
    using assms ok1 flag1 watchdog_fired [OF ok mem that] unfolding navInv_def by blast
  show ?thesis
  proof (cases t)
    case NavigationWatchdog
    then show ?thesis unfolding res navInv_def
      using ok1 by (simp add: runTask_def navigationWatchdogFired_def timersOk_fields)
  next
    case (NavigationFinish w)
    have "timersOk (processExistingCardsDebounced ?s1)"
      by (rule timersOk_frame [OF ok1 timerFrame_debounced])
    then have "timersOk (resetFlag w (processExistingCardsDebounced ?s1))"
      unfolding resetFlag_def using timersOk_clear timersOk_fields(1) by simp
    then show ?thesis unfolding res navInv_def
      using NavigationFinish by (simp add: runTask_def navigationFinishFired_def resetFlag_def)
  next
    case UserInactivity
    have "timerFrame ?s1 (handleUserInactivity ?s1)" by (simp add: handleUserInactivity_def timerFrame_def)
    from navInv_frame [OF other this] UserInactivity show ?thesis unfolding res by (simp add: runTask_def)
  next
    case ResumeRescan
    from navInv_frame [OF other timerFrame_debounced] ResumeRescan show ?thesis
      unfolding res by (simp add: runTask_def)
  next
    case ScanTimer
    have "timerFrame ?s1 (scanTimerFired ?s1)"
      by (simp add: scanTimerFired_def timerFrame_refl sameTimers_frame [OF sameTimers_processExistingCards])
    from navInv_frame [OF other this] ScanTimer show ?thesis unfolding res by (simp add: runTask_def)
  next
    case DatabaseUpdatedRescan
    from navInv_frame [OF other timerFrame_debounced] DatabaseUpdatedRescan show ?thesis
      unfolding res by (simp add: runTask_def)
  next
    case NavigationDelay
    from navInv_handleNavigationTrigger [OF other] NavigationDelay show ?thesis
      unfolding res by (simp add: runTask_def)
  next
    case NavigationRetry
    from navInv_handleNavigationTrigger [OF other] NavigationRetry show ?thesis
      unfolding res by (simp add: runTask_def)
  next
    case MutationRescan
    from navInv_frame [OF other timerFrame_debounced] MutationRescan show ?thesis
      unfolding res by (simp add: runTask_def)
  next
    case LootboxRescan
    from navInv_frame [OF other timerFrame_lootboxRescanFired] LootboxRescan show ?thesis
      unfolding res by (simp add: runTask_def)
  next
    case (GuardExpiry k)
    have "timerFrame ?s1 (?s1\<lparr>processingIds := processingIds ?s1 - {k}\<rparr>)" by (simp add: timerFrame_def)
    from navInv_frame [OF other this] GuardExpiry show ?thesis unfolding res by (simp add: runTask_def)
  next
    case CleanupInterval
    from navInv_frame [OF other sameTimers_frame [OF sameTimers_performCleanup]] CleanupInterval
    show ?thesis unfolding res by (simp add: runTask_def)
  next
    case LootboxPoll
    from navInv_frame [OF other timerFrame_lootboxPollFired] LootboxPoll show ?thesis
      unfolding res by (simp add: runTask_def)
  next
    case InitRetry
    from navInv_frame [OF other timerFrame_init] InitRetry show ?thesis
      unfolding res by (simp add: runTask_def)
  qed
qed

lemma navInv_step:
  assumes "navInv s"
  shows "navInv (step ev s)"
proof (cases ev)
  case (ClockAt t)
  then show ?thesis using navInv_at [OF assms] by (simp add: step_def)
next
  case (TimerFires i initSend)
  then show ?thesis using navInv_fireTimer [OF assms] assms by (simp add: step_def)
next
  case (UserActivity send)
  then show ?thesis using navInv_handleUserActivity [OF assms] by (simp add: step_def)
next
  case TabHidden
  have "timerFrame s (handleUserLeft s)" by (simp add: handleUserLeft_def timerFrame_def)
  from navInv_frame [OF assms this] TabHidden show ?thesis by (simp add: step_def)
next
  case (TabVisible send)
  have "timerFrame s (s\<lparr>isUserActive := True\<rparr>)" by (simp add: timerFrame_def)
  from navInv_frame [OF assms timerFrame_trans [OF this timerFrame_resumeProcessing]] TabVisible
  show ?thesis by (simp add: step_def handleUserReturned_def)
next
  case (Click tgt)
  from navInv_frame [OF assms timerFrame_trans [OF timerFrame_clickHandler timerFrame_lootboxClickHandler]]
    Click show ?thesis by (simp add: step_def)
next
  case (Change tgt)
  from navInv_frame [OF assms timerFrame_changeHandler] Change show ?thesis by (simp add: step_def)
next
  case (BackgroundMessage m)
  from navInv_frame [OF assms timerFrame_onMessage] assms BackgroundMessage show ?thesis
    by (simp add: step_def)
next
  case (Intersecting cards send)
  from navInv_frame [OF assms timerFrame_processVisibleCards] assms Intersecting show ?thesis
    by (simp add: step_def)
next
  case (Mutated ms)
  from navInv_frame [OF assms timerFrame_mutationCallback] assms Mutated show ?thesis
    by (simp add: step_def)
next
  case (StatsAnswer k a)
  from navInv_frame [OF assms sameTimers_frame [OF sameTimers_statsResponse]] StatsAnswer
  show ?thesis by (simp add: step_def)
next
  case (HostPage doc trees)
  have "timerFrame s (s\<lparr>document := doc, detached := trees\<rparr>)" by (simp add: timerFrame_def)
  from navInv_frame [OF assms this] HostPage show ?thesis by (simp add: step_def)
next
  case (Initialise initSend)
  from navInv_frame [OF assms timerFrame_init] Initialise show ?thesis by (simp add: step_def)
qed

lemma navInv_run: "navInv s \<Longrightarrow> navInv (run evs s)"
  unfolding run_def by (induction evs arbitrary: s) (simp_all add: navInv_step)

lemma navInv_construct: "navInv (construct doc path t0 fresh)"
  by (simp add: navInv_def timersOk_def construct_def setInterval_def setTimeout_def)

subsection \<open>The timers of a rebuild\<close>

text \<open>
  \<open>navTimers\<close>: the pending watchdogs and finishing timers, in the order in which they
  were set. \<open>navShape\<close>: while the in-flight flag is set they are one watchdog and the
  finishing timer that cancels it, the finishing timer due first and the watchdog no
  later than five seconds from now; while the flag is clear there is none. A rebuild is
  unfinished as long as its finishing timer is pending, so there is at most one.
\<close>

definition navTimers :: "state \<Rightarrow> timer list" where
  "navTimers s = filter (\<lambda>tm. navTask (snd (snd tm))) (timers s)"

definition navShape :: "state \<Rightarrow> bool" where
  "navShape s =
     (if isNavigationProcessing s
      then (\<exists>w dw f df. navTimers s = [(w, dw, NavigationWatchdog), (f, df, NavigationFinish w)]
                        \<and> df < dw \<and> dw \<le> now s + 5000)
      else navTimers s = [])"

lemma navShape_same:
  assumes "navShape s" and "navTimers s' = navTimers s"
    and "isNavigationProcessing s' = isNavigationProcessing s" and "now s \<le> now s'"
  shows "navShape s'"
proof (cases "isNavigationProcessing s")
  case True
  with assms(1) obtain w dw f df where
    "navTimers s = [(w, dw, NavigationWatchdog), (f, df, NavigationFinish w)]" "df < dw" "dw \<le> now s + 5000"
    unfolding navShape_def by auto
  with assms(2,4) have "navTimers s' = [(w, dw, NavigationWatchdog), (f, df, NavigationFinish w)]
      \<and> df < dw \<and> dw \<le> now s' + 5000" by simp
  then show ?thesis unfolding navShape_def using True assms(3) by auto
next
  case False
  with assms show ?thesis unfolding navShape_def by simp
qed

lemma navTimers_frame:
  assumes "timerFrame s s'"
  shows "navTimers s' = navTimers s"
proof -
  from assms obtain new where "timers s' = timers s @ new"
      "\<forall>tm \<in> set new. \<not> navTask (snd (snd tm))"
    unfolding timerFrame_def by blast
  then show ?thesis by (simp add: navTimers_def)
qed

lemma navShape_frame:
  assumes "navShape s" and "timerFrame s s'"
  shows "navShape s'"
proof -
  from assms(2) have "now s' = now s" "isNavigationProcessing s' = isNavigationProcessing s"
    unfolding timerFrame_def by blast+
  with navTimers_frame [OF assms(2)] show ?thesis by (intro navShape_same [OF assms(1)]) simp_all
qed

lemma navShape_at:
  assumes "navShape s"
  shows "navShape (at t s)"
  by (rule navShape_same [OF assms]) (simp_all add: at_def navTimers_def)

lemma filter_filter_key:
  "\<forall>tm \<in> set xs. fst tm = i \<longrightarrow> \<not> P tm
     \<Longrightarrow> filter P (filter (\<lambda>tm. fst tm \<noteq> i) xs) = filter P xs"
  by (induction xs) simp_all

lemma navTimers_clear:
  assumes "\<forall>d t. (i, d, t) \<in> set (timers s) \<longrightarrow> \<not> navTask t"
  shows "navTimers (clearTimeout i s) = navTimers s"
proof -
  from assms have "\<forall>tm \<in> set (timers s). fst tm = i \<longrightarrow> \<not> navTask (snd (snd tm))"
    by (metis prod.collapse)
  from filter_filter_key [OF this] show ?thesis
    by (simp add: navTimers_def clearTimeout_def)
qed

lemma navShape_clear_user:
  assumes "timersOk s" and "navShape s" and "userInactivityTimer s = Some i"
  shows "navShape (clearTimeout i s)"
proof -
  from assms(1,3) have st: "\<forall>d t. (i, d, t) \<in> set (timers s) \<longrightarrow> t = UserInactivity"
    unfolding timersOk_def by blast
  have "\<forall>d t. (i, d, t) \<in> set (timers s) \<longrightarrow> \<not> navTask t"
  proof (intro allI impI)
    fix d t assume "(i, d, t) \<in> set (timers s)"
    with st have "t = UserInactivity" by blast
    then show "\<not> navTask t" by simp
  qed
  from navTimers_clear [OF this] show ?thesis
    by (intro navShape_same [OF assms(2)]) (simp_all add: clearTimeout_def)
qed

lemma navShape_clear_nav:
  assumes "timersOk s" and "navShape s" and "navigationTimeout s = Some i"
  shows "navShape (clearTimeout i s)"
proof -
  from assms(1,3) have st: "\<forall>d t. (i, d, t) \<in> set (timers s) \<longrightarrow> t = NavigationRetry"
    unfolding timersOk_def by blast
  have "\<forall>d t. (i, d, t) \<in> set (timers s) \<longrightarrow> \<not> navTask t"
  proof (intro allI impI)
    fix d t assume "(i, d, t) \<in> set (timers s)"
    with st have "t = NavigationRetry" by blast
    then show "\<not> navTask t" by simp
  qed
  from navTimers_clear [OF this] show ?thesis
    by (intro navShape_same [OF assms(2)]) (simp_all add: clearTimeout_def)
qed

lemma navShape_set:
  assumes "navShape s" and "\<not> navTask t"
  shows "navShape ((snd (setTimeout t d s))\<lparr>navigationTimeout := x\<rparr>)"
    and "navShape ((snd (setTimeout t d s))\<lparr>userInactivityTimer := y\<rparr>)"
proof -
  show "navShape ((snd (setTimeout t d s))\<lparr>navigationTimeout := x\<rparr>)"
    using assms(2) by (intro navShape_same [OF assms(1)]) (simp_all add: navTimers_def setTimeout_def)
  show "navShape ((snd (setTimeout t d s))\<lparr>userInactivityTimer := y\<rparr>)"
    using assms(2) by (intro navShape_same [OF assms(1)]) (simp_all add: navTimers_def setTimeout_def)
qed

lemma navShape_handleUserActivity:
  assumes "navInv s" and "navShape s"
  shows "navShape (handleUserActivity send s)"
proof -
  define s1 where "s1 = (if \<not> isUserActive s then resumeProcessing send (s\<lparr>isUserActive := True\<rparr>) else s)"
  define s2 where "s2 = (case userInactivityTimer s1 of None \<Rightarrow> s1 | Some t \<Rightarrow> clearTimeout t s1)"
  have "timerFrame s (s\<lparr>isUserActive := True\<rparr>)" by (simp add: timerFrame_def)
  from timerFrame_trans [OF this timerFrame_resumeProcessing]
  have f: "timerFrame s s1" by (simp add: s1_def timerFrame_refl)
  from assms(1) f have i1: "navInv s1" by (rule navInv_frame)
  then have ok1: "timersOk s1" unfolding navInv_def by blast
  from assms(2) f have n1: "navShape s1" by (rule navShape_frame)
  have n2: "navShape s2"
    unfolding s2_def using n1 ok1 by (auto split: option.splits intro: navShape_clear_user)
  have "handleUserActivity send s
      = (case setTimeout UserInactivity USER_INACTIVITY_TIMEOUT s2 of
           (t, s3) \<Rightarrow> s3\<lparr>userInactivityTimer := Some t\<rparr>)"
    unfolding handleUserActivity_def Let_def s2_def s1_def ..
  also have "\<dots> = (snd (setTimeout UserInactivity USER_INACTIVITY_TIMEOUT s2))\<lparr>userInactivityTimer := Some (nextTimer s2)\<rparr>"
    by (simp add: setTimeout_def)
  finally show ?thesis using navShape_set(2) [OF n2] by simp
qed

lemma navTimers_fold:
  "navTimers (foldl (\<lambda>st img. updateElement img g st) s imgs) = navTimers s"
  by (induction imgs arbitrary: s) (simp_all add: updateElement_def navTimers_def)

lemma filter_swap: "filter P (filter Q xs) = filter Q (filter P xs)"
  by (induction xs) simp_all

lemma navTimers_clearTimeout:
  "navTimers (clearTimeout i s) = filter (\<lambda>tm. fst tm \<noteq> i) (navTimers s)"
  unfolding navTimers_def clearTimeout_def by (simp del: filter_filter add: filter_swap)

lemma navTimers_resetFlag:
  "navTimers (resetFlag i s) = filter (\<lambda>tm. fst tm \<noteq> i) (navTimers s)"
  using navTimers_clearTimeout [of i s] by (simp add: resetFlag_def navTimers_def)

lemma navShape_handleNavigationTrigger:
  assumes "navInv s" and "navShape s"
  shows "navShape (handleNavigationTrigger s)"
proof (cases "isNavigationProcessing s")
  case True
  define s1 where "s1 = (case navigationTimeout s of None \<Rightarrow> s | Some t \<Rightarrow> clearTimeout t s)"
  from assms(1) have ok: "timersOk s" unfolding navInv_def by blast
  have n1: "navShape s1"
    unfolding s1_def using assms(2) ok by (auto split: option.splits intro: navShape_clear_nav)
  have "handleNavigationTrigger s
      = (case setTimeout NavigationRetry 300 s1 of (t, s2) \<Rightarrow> s2\<lparr>navigationTimeout := Some t\<rparr>)"
    using True unfolding handleNavigationTrigger_def Let_def s1_def by simp
  also have "\<dots> = (snd (setTimeout NavigationRetry 300 s1))\<lparr>navigationTimeout := Some (nextTimer s1)\<rparr>"
    by (simp add: setTimeout_def)
  finally show ?thesis using navShape_set(1) [OF n1] by simp
next
  case False
  with assms(2) have none: "navTimers s = []" unfolding navShape_def by simp
  define s1 where "s1 = s\<lparr>isNavigationProcessing := True, lastNavigationStart := now s,
                    navigationCounter := navigationCounter s + 1\<rparr>"
  define s2 where "s2 = snd (setTimeout NavigationWatchdog 5000 s1)"
  define s3 where "s3 = removeAllStatsOverlays (clearAllProcessedFlags s2)"
  let ?s4 = "s3\<lparr>processingIds := {}\<rparr>"
  let ?s5 = "foldl (\<lambda>st img. updateElement img
                       (removeAttribute ''data-animestars-observing''
                          \<circ> removeAttribute ''data-animestars-processed'') st)
                ?s4 (documentQuerySelectorAll ?s4 remeltImageSelector)"
  have unfold: "handleNavigationTrigger s
      = (if isRemeltPage s3 then resetFlag (nextTimer s1) ?s5
         else snd (setTimeout (NavigationFinish (nextTimer s1)) 100 s3))"
    using False unfolding handleNavigationTrigger_def Let_def s3_def s2_def s1_def
    by (simp add: setTimeout_def)
  have f3: "isNavigationProcessing s3" "now s3 = now s" "nextTimer s1 = nextTimer s"
      "navTimers s3 = [(nextTimer s, now s + 5000, NavigationWatchdog)]"
    unfolding s3_def s2_def s1_def using none
    by (simp_all add: removeAllStatsOverlays_def clearAllProcessedFlags_def setTimeout_def
                      navTimers_def)
  show ?thesis
  proof (cases "isRemeltPage s3")
    case True
    have "navTimers ?s4 = navTimers s3" by (simp add: navTimers_def)
    then have "navTimers ?s5 = navTimers s3" by (simp only: navTimers_fold)
    then have "navTimers (resetFlag (nextTimer s1) ?s5) = []"
      unfolding navTimers_resetFlag using f3 by simp
    then show ?thesis unfolding unfold navShape_def using True by (simp add: resetFlag_def)
  next
    case False
    have "navTimers (snd (setTimeout (NavigationFinish (nextTimer s1)) 100 s3))
            = [(nextTimer s, now s + 5000, NavigationWatchdog),
               (nextTimer s3, now s + 100, NavigationFinish (nextTimer s))]"
      using f3 by (simp add: setTimeout_def navTimers_def)
    then show ?thesis unfolding unfold navShape_def using False f3
      by (simp add: setTimeout_def)
  qed
qed

lemma navInv_fired:
  assumes "navInv s" and "(i, due, t) \<in> set (timers s)" and "t \<noteq> NavigationWatchdog"
  shows "navInv (fired i due t s)"
proof -
  from assms(1) have ok: "timersOk s" unfolding navInv_def by blast
  have "isNavigationProcessing (fired i due t s) = isNavigationProcessing s"
    by (simp add: fired_def)
  with assms(1) timersOk_fired [OF ok assms(2)] watchdog_fired [OF ok assms(2,3)]
  show ?thesis unfolding navInv_def by blast
qed

lemma same_key:
  assumes "timersOk s" and "(i, due, t) \<in> set (timers s)" and "tm \<in> set (timers s)"
    and "fst tm = i"
  shows "tm = (i, due, t)"
proof -
  from assms(1) have d: "distinct (map fst (timers s))" unfolding timersOk_def by blast
  obtain d' t' where tm: "tm = (i, d', t')" using assms(4) by (cases tm) auto
  from eq_key_imp_eq_value [OF d assms(2)] assms(3) tm have "(due, t) = (d', t')" by blast
  with tm show ?thesis by simp
qed

lemma filter_rearm:
  "\<forall>tm \<in> set xs. fst tm = i \<longrightarrow> \<not> P tm \<Longrightarrow> \<not> P y
     \<Longrightarrow> filter P (map (\<lambda>tm. if fst tm = i then y else tm) xs) = filter P xs"
  by (induction xs) simp_all

lemma navTimers_fired_other:
  assumes "timersOk s" and "(i, due, t) \<in> set (timers s)" and "\<not> navTask t"
  shows "navTimers (fired i due t s) = navTimers s"
proof -
  have key: "\<forall>tm \<in> set (timers s). fst tm = i \<longrightarrow> \<not> navTask (snd (snd tm))"
  proof (intro ballI impI)
    fix tm assume "tm \<in> set (timers s)" "fst tm = i"
    from same_key [OF assms(1,2) this] assms(3) show "\<not> navTask (snd (snd tm))" by simp
  qed
  show ?thesis
  proof (cases "period t")
    case None
    then show ?thesis using filter_filter_key [OF key]
      by (simp add: navTimers_def fired_def)
  next
    case (Some p)
    have "\<not> navTask (snd (snd (i, max (now s) due + p, t)))" using assms(3) by simp
    from filter_rearm [where P = "\<lambda>tm. navTask (snd (snd tm))", OF key this] Some
    show ?thesis by (simp add: navTimers_def fired_def)
  qed
qed

lemma navShape_fired_other:
  assumes "timersOk s" and "navShape s" and "(i, due, t) \<in> set (timers s)" and "\<not> navTask t"
  shows "navShape (fired i due t s)"
  using navTimers_fired_other [OF assms(1,3,4)]
  by (intro navShape_same [OF assms(2)]) (simp_all add: fired_def)

lemma dueFirstD:
  assumes "dueFirst s i"
  obtains due t where "find (\<lambda>tm. fst tm = i) (timers s) = Some (i, due, t)"
    and "(i, due, t) \<in> set (timers s)"
    and "\<forall>tm \<in> set (timers s). due \<le> fst (snd tm)"
proof -
  from assms obtain tm where f: "find (\<lambda>tm. fst tm = i) (timers s) = Some tm"
    unfolding dueFirst_def by (auto split: option.splits)
  obtain j due t where tm: "tm = (j, due, t)" by (cases tm) auto
  from find_SomeD [OF f] tm have j: "j = i" and mem: "(i, due, t) \<in> set (timers s)" by auto
  from assms f tm have "list_all (\<lambda>tm. due \<le> fst (snd tm)) (timers s)"
    unfolding dueFirst_def by simp
  then have "\<forall>tm \<in> set (timers s). due \<le> fst (snd tm)" by (simp add: list_all_iff)
  with f tm j mem that show ?thesis by blast
qed

lemma navTimers_mem: "tm \<in> set (navTimers s) \<longleftrightarrow> tm \<in> set (timers s) \<and> navTask (snd (snd tm))"
  by (simp add: navTimers_def)

lemma navShape_fireTimer:
  assumes "navInv s" and "navShape s" and "dueFirst s i"
  shows "navShape (fireTimer initSend i s)"
proof -
  from assms(3) obtain due t where f: "find (\<lambda>tm. fst tm = i) (timers s) = Some (i, due, t)"
    and mem: "(i, due, t) \<in> set (timers s)"
    and first: "\<forall>tm \<in> set (timers s). due \<le> fst (snd tm)"
    by (rule dueFirstD)
  have res: "fireTimer initSend i s = runTask initSend t (fired i due t s)"
    using f by (simp add: fireTimer_fired)
  from assms(1) have ok: "timersOk s" unfolding navInv_def by blast
  let ?s1 = "fired i due t s"
  have inv1: "navInv ?s1" if "t \<noteq> NavigationWatchdog"
    by (rule navInv_fired [OF assms(1) mem that])
  have other: "navShape ?s1" if "\<not> navTask t"
    by (rule navShape_fired_other [OF ok assms(2) mem that])
  have nav: "\<exists>w dw f df. navTimers s = [(w, dw, NavigationWatchdog), (f, df, NavigationFinish w)]
                  \<and> df < dw \<and> dw \<le> now s + 5000" if "navTask t"
  proof -
    from mem that have "(i, due, t) \<in> set (navTimers s)" by (simp add: navTimers_mem)
    then have "navTimers s \<noteq> []" by auto
    with assms(2) show ?thesis unfolding navShape_def by (auto split: if_splits)
  qed
  show ?thesis
  proof (cases t)
    case NavigationWatchdog
    with nav obtain w dw f df where
      n: "navTimers s = [(w, dw, NavigationWatchdog), (f, df, NavigationFinish w)]" "df < dw"
      by auto
    from mem NavigationWatchdog have "(i, due, NavigationWatchdog) \<in> set (navTimers s)"
      by (simp add: navTimers_mem)
    with n(1) have "due = dw" by simp
    moreover have "(f, df, NavigationFinish w) \<in> set (timers s)"
      using n(1) navTimers_mem [of "(f, df, NavigationFinish w)" s] by simp
    with first have "due \<le> df" by fastforce
    ultimately show ?thesis using n(2) by simp
  next
    case (NavigationFinish w')
    with nav obtain w dw f df where
      n: "navTimers s = [(w, dw, NavigationWatchdog), (f, df, NavigationFinish w)]"
      by auto
    from mem NavigationFinish have "(i, due, NavigationFinish w') \<in> set (navTimers s)"
      by (simp add: navTimers_mem)
    with n have e: "i = f" "w' = w" by simp_all
    have mw: "(w, dw, NavigationWatchdog) \<in> set (timers s)"
      using n navTimers_mem [of "(w, dw, NavigationWatchdog)" s] by simp
    have "w \<noteq> i"
    proof
      assume "w = i"
      from same_key [OF ok mem mw] this NavigationFinish show False by simp
    qed
    have "navTimers ?s1 = filter (\<lambda>tm. fst tm \<noteq> i) (navTimers s)"
      using NavigationFinish navTimers_clearTimeout [of i s]
      by (simp add: fired_def period_def navTimers_def clearTimeout_def)
    with n e \<open>w \<noteq> i\<close> have n1: "navTimers ?s1 = [(w, dw, NavigationWatchdog)]" by simp
    have "navTimers (processExistingCardsDebounced ?s1) = navTimers ?s1"
      by (rule navTimers_frame [OF timerFrame_debounced])
    with n1 have "navTimers (resetFlag w (processExistingCardsDebounced ?s1)) = []"
      unfolding navTimers_resetFlag by simp
    then show ?thesis unfolding res navShape_def using NavigationFinish e
      by (simp add: runTask_def navigationFinishFired_def resetFlag_def)
  next
    case UserInactivity
    have "timerFrame ?s1 (handleUserInactivity ?s1)" by (simp add: handleUserInactivity_def timerFrame_def)
    from navShape_frame [OF other this] UserInactivity show ?thesis unfolding res by (simp add: runTask_def)
  next
    case ResumeRescan
    from navShape_frame [OF other timerFrame_debounced] ResumeRescan show ?thesis
      unfolding res by (simp add: runTask_def)
  next
    case ScanTimer
    have "timerFrame ?s1 (scanTimerFired ?s1)"
      by (simp add: scanTimerFired_def timerFrame_refl sameTimers_frame [OF sameTimers_processExistingCards])
    from navShape_frame [OF other this] ScanTimer show ?thesis unfolding res by (simp add: runTask_def)
  next
    case DatabaseUpdatedRescan
    from navShape_frame [OF other timerFrame_debounced] DatabaseUpdatedRescan show ?thesis
      unfolding res by (simp add: runTask_def)
  next
    case NavigationDelay
    from navShape_handleNavigationTrigger [OF inv1 other] NavigationDelay show ?thesis
      unfolding res by (simp add: runTask_def)
  next
    case NavigationRetry
    from navShape_handleNavigationTrigger [OF inv1 other] NavigationRetry show ?thesis
      unfolding res by (simp add: runTask_def)
  next
    case MutationRescan
    from navShape_frame [OF other timerFrame_debounced] MutationRescan show ?thesis
      unfolding res by (simp add: runTask_def)
  next
    case LootboxRescan
    from navShape_frame [OF other timerFrame_lootboxRescanFired] LootboxRescan show ?thesis
      unfolding res by (simp add: runTask_def)
  next
    case (GuardExpiry k)
    have "timerFrame ?s1 (?s1\<lparr>processingIds := processingIds ?s1 - {k}\<rparr>)" by (simp add: timerFrame_def)
    from navShape_frame [OF other this] GuardExpiry show ?thesis unfolding res by (simp add: runTask_def)
  next
    case CleanupInterval
    from navShape_frame [OF other sameTimers_frame [OF sameTimers_performCleanup]] CleanupInterval
    show ?thesis unfolding res by (simp add: runTask_def)
  next
    case LootboxPoll
    from navShape_frame [OF other timerFrame_lootboxPollFired] LootboxPoll show ?thesis
      unfolding res by (simp add: runTask_def)
  next
    case InitRetry
    from navShape_frame [OF other timerFrame_init] InitRetry show ?thesis
      unfolding res by (simp add: runTask_def)
  qed
qed

text \<open>The invariant of the coordinator, and its preservation by every event.\<close>

definition coordInv :: "state \<Rightarrow> bool" where
  "coordInv s = (navInv s \<and> navShape s)"

lemma coordInv_frame: "coordInv s \<Longrightarrow> timerFrame s s' \<Longrightarrow> coordInv s'"
  unfolding coordInv_def using navInv_frame navShape_frame by blast

lemma coordInv_step:
  assumes "coordInv s"
  shows "coordInv (step ev s)"
proof (cases ev)
  case (ClockAt t)
  then show ?thesis using assms navInv_at navShape_at by (simp add: step_def coordInv_def)
next
  case (TimerFires i initSend)
  then show ?thesis using assms navInv_fireTimer navShape_fireTimer
    by (simp add: step_def coordInv_def)
next
  case (UserActivity send)
  then show ?thesis using assms navInv_handleUserActivity navShape_handleUserActivity
    by (simp add: step_def coordInv_def)
next
  case TabHidden
  have "timerFrame s (handleUserLeft s)" by (simp add: handleUserLeft_def timerFrame_def)
  from coordInv_frame [OF assms this] TabHidden show ?thesis by (simp add: step_def)
next
  case (TabVisible send)
  have "timerFrame s (s\<lparr>isUserActive := True\<rparr>)" by (simp add: timerFrame_def)
  from coordInv_frame [OF assms timerFrame_trans [OF this timerFrame_resumeProcessing]] TabVisible
  show ?thesis by (simp add: step_def handleUserReturned_def)
next
  case (Click tgt)
  from coordInv_frame [OF assms timerFrame_trans [OF timerFrame_clickHandler timerFrame_lootboxClickHandler]]
    Click show ?thesis by (simp add: step_def)
next
  case (Change tgt)
  from coordInv_frame [OF assms timerFrame_changeHandler] Change show ?thesis by (simp add: step_def)
next
  case (BackgroundMessage m)
  from coordInv_frame [OF assms timerFrame_onMessage] assms BackgroundMessage show ?thesis
    by (simp add: step_def)
next
  case (Intersecting cards send)
  from coordInv_frame [OF assms timerFrame_processVisibleCards] assms Intersecting show ?thesis
    by (simp add: step_def)
next
  case (Mutated ms)
  from coordInv_frame [OF assms timerFrame_mutationCallback] assms Mutated show ?thesis
    by (simp add: step_def)
next
  case (StatsAnswer k a)
  from coordInv_frame [OF assms sameTimers_frame [OF sameTimers_statsResponse]] StatsAnswer
  show ?thesis by (simp add: step_def)
next
  case (HostPage doc trees)
  have "timerFrame s (s\<lparr>document := doc, detached := trees\<rparr>)" by (simp add: timerFrame_def)
  from coordInv_frame [OF assms this] HostPage show ?thesis by (simp add: step_def)
next
  case (Initialise initSend)
  from coordInv_frame [OF assms timerFrame_init] Initialise show ?thesis by (simp add: step_def)
qed

lemma coordInv_run: "coordInv s \<Longrightarrow> coordInv (run evs s)"
  unfolding run_def by (induction evs arbitrary: s) (simp_all add: coordInv_step)

lemma coordInv_construct: "coordInv (construct doc path t0 fresh)"
  unfolding coordInv_def
  by (simp add: navInv_construct)
     (simp add: navShape_def navTimers_def construct_def setInterval_def setTimeout_def)


subsection \<open>The trigger handler and its timers\<close>

lemma handleNavigationTrigger_busy:
  assumes "isNavigationProcessing s"
  shows "handleNavigationTrigger s =
           s\<lparr>timers := (case navigationTimeout s of
                          None \<Rightarrow> timers s
                        | Some t \<Rightarrow> filter (\<lambda>tm. fst tm \<noteq> t) (timers s))
                       @ [(nextTimer s, now s + 300, NavigationRetry)],
             nextTimer := Suc (nextTimer s),
             navigationTimeout := Some (nextTimer s)\<rparr>"
  using assms
  by (cases "navigationTimeout s")
     (simp_all add: handleNavigationTrigger_def Let_def setTimeout_def clearTimeout_def)

lemma handleNavigationTrigger_start:
  assumes "\<not> isNavigationProcessing s"
  shows "navigationCounter (handleNavigationTrigger s) = navigationCounter s + 1"
    and "lastNavigationStart (handleNavigationTrigger s) = now s"
    and "isRemeltPage s \<Longrightarrow> \<not> isNavigationProcessing (handleNavigationTrigger s)"
    and "\<not> isRemeltPage s \<Longrightarrow>
           isNavigationProcessing (handleNavigationTrigger s)
           \<and> timers (handleNavigationTrigger s)
               = timers s @ [(nextTimer s, now s + 5000, NavigationWatchdog),
                             (Suc (nextTimer s), now s + 100, NavigationFinish (nextTimer s))]"
proof -
  define s1 where "s1 = s\<lparr>isNavigationProcessing := True, lastNavigationStart := now s,
                    navigationCounter := navigationCounter s + 1\<rparr>"
  define s2 where "s2 = snd (setTimeout NavigationWatchdog 5000 s1)"
  define s3 where "s3 = removeAllStatsOverlays (clearAllProcessedFlags s2)"
  let ?s4 = "s3\<lparr>processingIds := {}\<rparr>"
  let ?s5 = "foldl (\<lambda>st img. updateElement img
                       (removeAttribute ''data-animestars-observing''
                          \<circ> removeAttribute ''data-animestars-processed'') st)
                ?s4 (documentQuerySelectorAll ?s4 remeltImageSelector)"
  have unfold: "handleNavigationTrigger s
      = (if isRemeltPage s3 then resetFlag (nextTimer s1) ?s5
         else snd (setTimeout (NavigationFinish (nextTimer s1)) 100 s3))"
    using assms unfolding handleNavigationTrigger_def Let_def s3_def s2_def s1_def
    by (simp add: setTimeout_def)
  have f3: "navigationCounter s3 = navigationCounter s + 1" "lastNavigationStart s3 = now s"
      "isNavigationProcessing s3" "now s3 = now s" "nextTimer s3 = Suc (nextTimer s)"
      "timers s3 = timers s @ [(nextTimer s, now s + 5000, NavigationWatchdog)]"
      "isRemeltPage s3 = isRemeltPage s"
    unfolding s3_def s2_def s1_def
    by (simp_all add: removeAllStatsOverlays_def clearAllProcessedFlags_def setTimeout_def
                      isRemeltPage_def)
  have fold: "navigationCounter (foldl (\<lambda>st img. updateElement img g st) st0 imgs) = navigationCounter st0
            \<and> lastNavigationStart (foldl (\<lambda>st img. updateElement img g st) st0 imgs) = lastNavigationStart st0"
    for g st0 imgs
    by (induction imgs arbitrary: st0) (simp_all add: updateElement_def)
  have f5: "navigationCounter ?s5 = navigationCounter s + 1" "lastNavigationStart ?s5 = now s"
    using fold [of _ ?s4] f3 by simp_all
  show "navigationCounter (handleNavigationTrigger s) = navigationCounter s + 1"
    unfolding unfold using f3 f5 by (simp add: resetFlag_def clearTimeout_def setTimeout_def)
  show "lastNavigationStart (handleNavigationTrigger s) = now s"
    unfolding unfold using f3 f5 by (simp add: resetFlag_def clearTimeout_def setTimeout_def)
  show "isRemeltPage s \<Longrightarrow> \<not> isNavigationProcessing (handleNavigationTrigger s)"
    unfolding unfold using f3 by (simp add: resetFlag_def)
  show "\<not> isRemeltPage s \<Longrightarrow>
           isNavigationProcessing (handleNavigationTrigger s)
           \<and> timers (handleNavigationTrigger s)
               = timers s @ [(nextTimer s, now s + 5000, NavigationWatchdog),
                             (Suc (nextTimer s), now s + 100, NavigationFinish (nextTimer s))]"
    unfolding unfold using f3 by (simp add: setTimeout_def s1_def)
qed

lemma find_distinct_key:
  assumes "distinct (map fst xs)" and "(i, v) \<in> set xs"
  shows "find (\<lambda>tm. fst tm = i) xs = Some (i, v)"
  using assms by (induction xs) (auto simp: rev_image_eqI)

lemma watchdog_fires:
  assumes "timersOk s" and "(i, due, NavigationWatchdog) \<in> set (timers s)"
  shows "\<not> isNavigationProcessing (fireTimer initSend i s)"
proof -
  from assms(1) have "distinct (map fst (timers s))" unfolding timersOk_def by blast
  from find_distinct_key [OF this assms(2)]
  show ?thesis by (simp add: fireTimer_def runTask_def navigationWatchdogFired_def)
qed

lemma retry_fires:
  assumes "timersOk s" and "isNavigationProcessing s"
  shows "fireTimer initSend (nextTimer s) (handleNavigationTrigger s)
           = handleNavigationTrigger
               ((handleNavigationTrigger s)
                  \<lparr>now := now s + 300,
                   timers := filter (\<lambda>tm. fst tm \<noteq> nextTimer s) (timers (handleNavigationTrigger s))\<rparr>)"
proof -
  define old where "old = (case navigationTimeout s of
                          None \<Rightarrow> timers s
                        | Some t \<Rightarrow> filter (\<lambda>tm. fst tm \<noteq> t) (timers s))"
  have sub: "set old \<subseteq> set (timers s)" unfolding old_def by (auto split: option.splits)
  from assms(1) have "\<forall>tm \<in> set (timers s). fst tm < nextTimer s" unfolding timersOk_def by blast
  with sub have "\<forall>tm \<in> set old. fst tm \<noteq> nextTimer s" by fastforce
  then have none: "find (\<lambda>tm. fst tm = nextTimer s) old = None"
    unfolding find_None_iff by blast
  have found: "find (\<lambda>tm. fst tm = nextTimer s) (old @ [(nextTimer s, now s + 300, NavigationRetry)])
                 = Some (nextTimer s, now s + 300, NavigationRetry)"
    using none by (induction old) (auto split: if_splits)
  have res: "timers (handleNavigationTrigger s) = old @ [(nextTimer s, now s + 300, NavigationRetry)]"
      "now (handleNavigationTrigger s) = now s"
    unfolding handleNavigationTrigger_busy [OF assms(2)] old_def by simp_all
  show ?thesis
    unfolding fireTimer_def [of initSend "nextTimer s" "handleNavigationTrigger s"]
    by (simp add: res(2) found [folded res(1)] runTask_def period_def)
qed

lemma navTimers_busy:
  assumes "timersOk s" and "isNavigationProcessing s"
  shows "navTimers (handleNavigationTrigger s) = navTimers s"
proof -
  define s1 where "s1 = (case navigationTimeout s of None \<Rightarrow> s | Some t \<Rightarrow> clearTimeout t s)"
  have n1: "navTimers s1 = navTimers s"
  proof (cases "navigationTimeout s")
    case None
    then show ?thesis by (simp add: s1_def)
  next
    case (Some i)
    from assms(1) Some have st: "\<forall>d t. (i, d, t) \<in> set (timers s) \<longrightarrow> t = NavigationRetry"
      unfolding timersOk_def by blast
    have "\<forall>d t. (i, d, t) \<in> set (timers s) \<longrightarrow> \<not> navTask t"
    proof (intro allI impI)
      fix d t assume "(i, d, t) \<in> set (timers s)"
      with st have "t = NavigationRetry" by blast
      then show "\<not> navTask t" by simp
    qed
    from navTimers_clear [OF this] Some show ?thesis by (simp add: s1_def)
  qed
  have "handleNavigationTrigger s
      = (case setTimeout NavigationRetry 300 s1 of (t, s2) \<Rightarrow> s2\<lparr>navigationTimeout := Some t\<rparr>)"
    using assms(2) unfolding handleNavigationTrigger_def Let_def s1_def by simp
  also have "\<dots> = (snd (setTimeout NavigationRetry 300 s1))\<lparr>navigationTimeout := Some (nextTimer s1)\<rparr>"
    by (simp add: setTimeout_def)
  finally have "navTimers (handleNavigationTrigger s) = navTimers s1"
    by (simp add: navTimers_def setTimeout_def)
  with n1 show ?thesis by simp
qed

lemma finish_fires:
  assumes "timersOk s"
    and "navTimers s = [(w, dw, NavigationWatchdog), (f, df, NavigationFinish w)]"
  shows "\<not> isNavigationProcessing (fireTimer initSend f s)"
    and "navTimers (fireTimer initSend f s) = []"
proof -
  have mf: "(f, df, NavigationFinish w) \<in> set (timers s)"
    using assms(2) navTimers_mem [of "(f, df, NavigationFinish w)" s] by simp
  have mw: "(w, dw, NavigationWatchdog) \<in> set (timers s)"
    using assms(2) navTimers_mem [of "(w, dw, NavigationWatchdog)" s] by simp
  from assms(1) have "distinct (map fst (timers s))" unfolding timersOk_def by blast
  from find_distinct_key [OF this mf]
  have res: "fireTimer initSend f s
               = resetFlag w (processExistingCardsDebounced (fired f df (NavigationFinish w) s))"
    by (simp add: fireTimer_fired runTask_def navigationFinishFired_def)
  show "\<not> isNavigationProcessing (fireTimer initSend f s)"
    unfolding res by (simp add: resetFlag_def)
  have "w \<noteq> f"
  proof
    assume "w = f"
    from same_key [OF assms(1) mf mw] this show False by simp
  qed
  let ?s1 = "fired f df (NavigationFinish w) s"
  have "navTimers ?s1 = filter (\<lambda>tm. fst tm \<noteq> f) (navTimers s)"
    using navTimers_clearTimeout [of f s]
    by (simp add: fired_def period_def navTimers_def clearTimeout_def)
  with assms(2) \<open>w \<noteq> f\<close> have n1: "navTimers ?s1 = [(w, dw, NavigationWatchdog)]" by simp
  have "navTimers (processExistingCardsDebounced ?s1) = navTimers ?s1"
    by (rule navTimers_frame [OF timerFrame_debounced])
  with n1 show "navTimers (fireTimer initSend f s) = []"
    unfolding res navTimers_resetFlag by simp
qed

text \<open>
  C6. In every state \<open>s\<close> that a run of events reaches from the constructor, timers
  running in the order of their due times:
  while the in-flight flag is set exactly one rebuild is unfinished: the pending timers
  of rebuilds are one watchdog, due no later than five seconds from now, and one
  finishing timer, due before the watchdog; the firing of either clears the flag, and the
  firing of the finishing timer cancels the watchdog, after which no timer of a rebuild
  is pending. A trigger that arrives then starts no rebuild (the counter of rebuilds, the
  document, the detached trees and the timers of rebuilds stay as they are): it replaces
  the pending retry by one due in 300 ms, whose firing runs the trigger handler again.
  While the flag is clear no rebuild is unfinished: no watchdog and no finishing timer is
  pending. A trigger that arrives then starts the next rebuild; off the remelt page it
  sets the flag together with the watchdog at 5000 ms and the finishing timer at 100 ms,
  and on the remelt page the rebuild is over, the flag clear, when the handler returns.
  The watchdog and the finishing timer both leave the flag clear.
\<close>

theorem navigation_rebuilds_are_single_flight:
  "(let s = run evs (construct doc path t0 fresh);
        s' = handleNavigationTrigger s
    in (isNavigationProcessing s \<longrightarrow>
          (\<exists>w dw f df. navTimers s = [(w, dw, NavigationWatchdog), (f, df, NavigationFinish w)]
                        \<and> df < dw \<and> dw \<le> now s + 5000
                        \<and> \<not> isNavigationProcessing (fireTimer initSend w s)
                        \<and> \<not> isNavigationProcessing (fireTimer initSend f s)
                        \<and> navTimers (fireTimer initSend f s) = [])
          \<and> (\<exists>i due. (i, due, NavigationWatchdog) \<in> set (timers s) \<and> due \<le> now s + 5000
                   \<and> \<not> isNavigationProcessing (fireTimer initSend i s))
          \<and> isNavigationProcessing s'
          \<and> navigationCounter s' = navigationCounter s
          \<and> document s' = document s \<and> detached s' = detached s
          \<and> navTimers s' = navTimers s
          \<and> navigationTimeout s' = Some (nextTimer s)
          \<and> (nextTimer s, now s + 300, NavigationRetry) \<in> set (timers s')
          \<and> (\<forall>i d. navigationTimeout s = Some i \<longrightarrow> (i, d, NavigationRetry) \<notin> set (timers s'))
          \<and> fireTimer initSend (nextTimer s) s'
               = handleNavigationTrigger
                   (s'\<lparr>now := now s + 300,
                       timers := filter (\<lambda>tm. fst tm \<noteq> nextTimer s) (timers s')\<rparr>))
     \<and> (\<not> isNavigationProcessing s \<longrightarrow>
          navTimers s = []
          \<and> navigationCounter s' = navigationCounter s + 1
          \<and> (if isRemeltPage s then \<not> isNavigationProcessing s' \<and> navTimers s' = []
              else isNavigationProcessing s'
                   \<and> timers s' = timers s @ [(nextTimer s, now s + 5000, NavigationWatchdog),
                                             (Suc (nextTimer s), now s + 100,
                                              NavigationFinish (nextTimer s))])))
   \<and> runTask initSend NavigationDelay st = handleNavigationTrigger st
   \<and> runTask initSend NavigationRetry st = handleNavigationTrigger st
   \<and> \<not> isNavigationProcessing (runTask initSend NavigationWatchdog st)
   \<and> \<not> isNavigationProcessing (runTask initSend (NavigationFinish w) st)"
proof -
  define s where "s = run evs (construct doc path t0 fresh)"
  define s' where "s' = handleNavigationTrigger s"
  have cinv: "coordInv s" unfolding s_def by (rule coordInv_run [OF coordInv_construct])
  then have inv: "navInv s" and shape: "navShape s" unfolding coordInv_def by blast+
  from inv have ok: "timersOk s" unfolding navInv_def by blast
  have shape': "navShape s'" unfolding s'_def
    by (rule navShape_handleNavigationTrigger [OF inv shape])
  have busy: "(\<exists>w dw f df. navTimers s = [(w, dw, NavigationWatchdog), (f, df, NavigationFinish w)]
                        \<and> df < dw \<and> dw \<le> now s + 5000
                        \<and> \<not> isNavigationProcessing (fireTimer initSend w s)
                        \<and> \<not> isNavigationProcessing (fireTimer initSend f s)
                        \<and> navTimers (fireTimer initSend f s) = [])
          \<and> (\<exists>i due. (i, due, NavigationWatchdog) \<in> set (timers s) \<and> due \<le> now s + 5000
                   \<and> \<not> isNavigationProcessing (fireTimer initSend i s))
          \<and> isNavigationProcessing s'
          \<and> navigationCounter s' = navigationCounter s
          \<and> document s' = document s \<and> detached s' = detached s
          \<and> navTimers s' = navTimers s
          \<and> navigationTimeout s' = Some (nextTimer s)
          \<and> (nextTimer s, now s + 300, NavigationRetry) \<in> set (timers s')
          \<and> (\<forall>i d. navigationTimeout s = Some i \<longrightarrow> (i, d, NavigationRetry) \<notin> set (timers s'))
          \<and> fireTimer initSend (nextTimer s) s'
               = handleNavigationTrigger
                   (s'\<lparr>now := now s + 300,
                       timers := filter (\<lambda>tm. fst tm \<noteq> nextTimer s) (timers s')\<rparr>)"
    if flag: "isNavigationProcessing s"
  proof -
    from shape flag obtain w dw f df where
      n: "navTimers s = [(w, dw, NavigationWatchdog), (f, df, NavigationFinish w)]"
         "df < dw" "dw \<le> now s + 5000"
      unfolding navShape_def by auto
    have mw: "(w, dw, NavigationWatchdog) \<in> set (timers s)"
      using n(1) navTimers_mem [of "(w, dw, NavigationWatchdog)" s] by simp
    note wf = watchdog_fires [OF ok mw, of initSend]
    from n wf finish_fires [OF ok n(1), of initSend]
    have a0: "\<exists>w dw f df. navTimers s = [(w, dw, NavigationWatchdog), (f, df, NavigationFinish w)]
                        \<and> df < dw \<and> dw \<le> now s + 5000
                        \<and> \<not> isNavigationProcessing (fireTimer initSend w s)
                        \<and> \<not> isNavigationProcessing (fireTimer initSend f s)
                        \<and> navTimers (fireTimer initSend f s) = []" by blast
    from mw n(3) wf
    have a: "\<exists>i due. (i, due, NavigationWatchdog) \<in> set (timers s) \<and> due \<le> now s + 5000
                   \<and> \<not> isNavigationProcessing (fireTimer initSend i s)" by blast
    note eq = handleNavigationTrigger_busy [OF flag]
    have b: "isNavigationProcessing s'" "navigationCounter s' = navigationCounter s"
        "document s' = document s" "detached s' = detached s"
        "navigationTimeout s' = Some (nextTimer s)"
        "(nextTimer s, now s + 300, NavigationRetry) \<in> set (timers s')"
      unfolding s'_def eq using flag by simp_all
    have b': "navTimers s' = navTimers s"
      unfolding s'_def by (rule navTimers_busy [OF ok flag])
    have c: "\<forall>i d. navigationTimeout s = Some i \<longrightarrow> (i, d, NavigationRetry) \<notin> set (timers s')"
    proof (intro allI impI)
      fix i d assume n: "navigationTimeout s = Some i"
      with ok have "i < nextTimer s" unfolding timersOk_def by blast
      then show "(i, d, NavigationRetry) \<notin> set (timers s')"
        unfolding s'_def eq using n by simp
    qed
    have d: "fireTimer initSend (nextTimer s) s'
               = handleNavigationTrigger
                   (s'\<lparr>now := now s + 300,
                       timers := filter (\<lambda>tm. fst tm \<noteq> nextTimer s) (timers s')\<rparr>)"
      unfolding s'_def by (rule retry_fires [OF ok flag])
    from a0 a b b' c d show ?thesis by blast
  qed
  have idle: "navTimers s = []
          \<and> navigationCounter s' = navigationCounter s + 1
          \<and> (if isRemeltPage s then \<not> isNavigationProcessing s' \<and> navTimers s' = []
              else isNavigationProcessing s'
                   \<and> timers s' = timers s @ [(nextTimer s, now s + 5000, NavigationWatchdog),
                                             (Suc (nextTimer s), now s + 100,
                                              NavigationFinish (nextTimer s))])"
    if clear: "\<not> isNavigationProcessing s"
  proof -
    from shape clear have none: "navTimers s = []" unfolding navShape_def by simp
    note st = handleNavigationTrigger_start [OF clear]
    have "navTimers s' = []" if "isRemeltPage s"
      using shape' st(3) [OF that] unfolding navShape_def s'_def by simp
    with none st show ?thesis unfolding s'_def by simp
  qed
  have tasks: "runTask initSend NavigationDelay st = handleNavigationTrigger st"
      "runTask initSend NavigationRetry st = handleNavigationTrigger st"
      "\<not> isNavigationProcessing (runTask initSend NavigationWatchdog st)"
      "\<not> isNavigationProcessing (runTask initSend (NavigationFinish w) st)"
    by (simp_all add: runTask_def navigationWatchdogFired_def navigationFinishFired_def resetFlag_def)
  from busy idle tasks show ?thesis
    unfolding Let_def s'_def s_def by blast
qed


text \<open>
  A trade page with one of its tabs. The script is initialised, the tab is clicked twice,
  50 ms apart, and the delay of the first click elapses: the first rebuild is in flight,
  with the delay of the second click still pending. When that delay elapses the trigger
  is queued; the finishing timer then ends the first rebuild, and the retry starts the
  second.
\<close>

definition tradePage :: node where
  "tradePage = Node 0 ''BODY'' [] [Node 1 ''DIV'' [(''class'', ''tabs__want__card'')] []]"

definition idle :: state where
  "idle = run [Initialise (\<lambda>k. readyBackground)] (construct tradePage ''/trade/'' 0 2)"

definition rebuilding :: state where
  "rebuilding =
     run [Initialise (\<lambda>k. readyBackground), Click 1, ClockAt 50, Click 1,
          TimerFires 2 (\<lambda>k. readyBackground)]
       (construct tradePage ''/trade/'' 0 2)"

definition coordinator :: "state \<Rightarrow> bool \<times> int \<times> int \<times> timer list \<times> nat option \<times> nat" where
  "coordinator s =
     (isNavigationProcessing s, navigationCounter s, now s, timers s, navigationTimeout s, nextTimer s)"

theorem navigation_rebuilds_are_single_flight_witness:
  "coordinator rebuilding
     = (True, 1, 500,
        [(1, 30000, CleanupInterval), (3, 550, NavigationDelay),
         (4, 5500, NavigationWatchdog), (5, 600, NavigationFinish 4)], None, 6)
   \<and> isNavigationProcessing (handleNavigationTrigger rebuilding)
   \<and> navigationCounter (handleNavigationTrigger rebuilding) = 1
   \<and> navTimers (handleNavigationTrigger rebuilding)
       = [(4, 5500, NavigationWatchdog), (5, 600, NavigationFinish 4)]
   \<and> navigationTimeout (handleNavigationTrigger rebuilding) = Some 6
   \<and> (6, 800, NavigationRetry) \<in> set (timers (handleNavigationTrigger rebuilding))
   \<and> coordinator idle = (False, 0, 0, [(1, 30000, CleanupInterval)], None, 2)
   \<and> isNavigationProcessing (handleNavigationTrigger idle)
   \<and> navigationCounter (handleNavigationTrigger idle) = 1
   \<and> timers (handleNavigationTrigger idle)
       = [(1, 30000, CleanupInterval), (2, 5000, NavigationWatchdog), (3, 100, NavigationFinish 2)]
   \<and> coordinator (run [TimerFires 3 (\<lambda>k. readyBackground), TimerFires 5 (\<lambda>k. readyBackground)]
                     rebuilding)
       = (False, 1, 600,
          [(1, 30000, CleanupInterval), (6, 850, NavigationRetry), (7, 1100, ScanTimer)],
          Some 6, 8)
   \<and> coordinator (run [TimerFires 3 (\<lambda>k. readyBackground), TimerFires 5 (\<lambda>k. readyBackground),
                      TimerFires 6 (\<lambda>k. readyBackground)] rebuilding)
       = (True, 2, 850,
          [(1, 30000, CleanupInterval), (7, 1100, ScanTimer),
           (8, 5850, NavigationWatchdog), (9, 950, NavigationFinish 8)], Some 6, 10)"
proof -
  have r: "coordinator rebuilding
     = (True, 1, 500,
        [(1, 30000, CleanupInterval), (3, 550, NavigationDelay),
         (4, 5500, NavigationWatchdog), (5, 600, NavigationFinish 4)], None, 6)"
    by code_simp
  have i: "coordinator idle = (False, 0, 0, [(1, 30000, CleanupInterval)], None, 2)"
    by code_simp
  have p: "\<not> isRemeltPage idle" by code_simp
  have c1: "coordinator (run [TimerFires 3 (\<lambda>k. readyBackground), TimerFires 5 (\<lambda>k. readyBackground)]
                     rebuilding)
       = (False, 1, 600,
          [(1, 30000, CleanupInterval), (6, 850, NavigationRetry), (7, 1100, ScanTimer)],
          Some 6, 8)"
    by code_simp
  have c2: "coordinator (run [TimerFires 3 (\<lambda>k. readyBackground), TimerFires 5 (\<lambda>k. readyBackground),
                      TimerFires 6 (\<lambda>k. readyBackground)] rebuilding)
       = (True, 2, 850,
          [(1, 30000, CleanupInterval), (7, 1100, ScanTimer),
           (8, 5850, NavigationWatchdog), (9, 950, NavigationFinish 8)], Some 6, 10)"
    by code_simp
  from r have rf: "isNavigationProcessing rebuilding" "navigationCounter rebuilding = 1"
      "now rebuilding = 500" "nextTimer rebuilding = 6"
      "navTimers rebuilding = [(4, 5500, NavigationWatchdog), (5, 600, NavigationFinish 4)]"
    by (simp_all add: coordinator_def navTimers_def)
  from i have idf: "\<not> isNavigationProcessing idle" "navigationCounter idle = 0"
      "now idle = 0" "nextTimer idle = 2" "timers idle = [(1, 30000, CleanupInterval)]"
    by (simp_all add: coordinator_def)
  have busy: "isNavigationProcessing (handleNavigationTrigger rebuilding)
      \<and> navigationCounter (handleNavigationTrigger rebuilding) = navigationCounter rebuilding
      \<and> navTimers (handleNavigationTrigger rebuilding) = navTimers rebuilding
      \<and> navigationTimeout (handleNavigationTrigger rebuilding) = Some (nextTimer rebuilding)
      \<and> (nextTimer rebuilding, now rebuilding + 300, NavigationRetry)
           \<in> set (timers (handleNavigationTrigger rebuilding))"
    using navigation_rebuilds_are_single_flight
            [of "[Initialise (\<lambda>k. readyBackground), Click 1, ClockAt 50, Click 1,
                  TimerFires 2 (\<lambda>k. readyBackground)]" tradePage "''/trade/''" 0 2,
             folded rebuilding_def] rf(1)
    unfolding Let_def by blast
  have start: "navigationCounter (handleNavigationTrigger idle) = navigationCounter idle + 1
      \<and> isNavigationProcessing (handleNavigationTrigger idle)
      \<and> timers (handleNavigationTrigger idle)
          = timers idle @ [(nextTimer idle, now idle + 5000, NavigationWatchdog),
                           (Suc (nextTimer idle), now idle + 100, NavigationFinish (nextTimer idle))]"
    using navigation_rebuilds_are_single_flight
            [of "[Initialise (\<lambda>k. readyBackground)]" tradePage "''/trade/''" 0 2,
             folded idle_def] idf(1) p
    unfolding Let_def by (simp only: if_False simp_thms)
  from busy have b: "isNavigationProcessing (handleNavigationTrigger rebuilding)"
      "navigationCounter (handleNavigationTrigger rebuilding) = 1"
      "navTimers (handleNavigationTrigger rebuilding)
         = [(4, 5500, NavigationWatchdog), (5, 600, NavigationFinish 4)]"
      "navigationTimeout (handleNavigationTrigger rebuilding) = Some 6"
      "(6, 800, NavigationRetry) \<in> set (timers (handleNavigationTrigger rebuilding))"
    unfolding rf by simp_all
  from start have s: "isNavigationProcessing (handleNavigationTrigger idle)"
      "navigationCounter (handleNavigationTrigger idle) = 1"
      "timers (handleNavigationTrigger idle)
       = [(1, 30000, CleanupInterval), (2, 5000, NavigationWatchdog), (3, 100, NavigationFinish 2)]"
    unfolding idf by simp_all
  from r i b s c1 c2 show ?thesis by blast
qed


section \<open>Properties of the insertion of overlays\<close>

text \<open>
  What the guards of \<^verbatim>\<open>addStatsOverlay\<close> and \<^verbatim>\<open>insertOverlay\<close> read on an element:
  \<^verbatim>\<open>element.querySelectorAll('.card-stats-overlay')\<close> and
  \<^verbatim>\<open>element.hasAttribute('data-animestars-processed')\<close>.
\<close>

definition overlaysOf :: "state \<Rightarrow> nat \<Rightarrow> nat list" where
  "overlaysOf s e =
     (case lookupElement s e of None \<Rightarrow> [] | Some el \<Rightarrow> map nid (querySelectorAll el overlaySelector))"

definition processedFlag :: "state \<Rightarrow> nat \<Rightarrow> bool" where
  "processedFlag s e =
     (case lookupElement s e of None \<Rightarrow> False | Some el \<Rightarrow> hasAttribute el ''data-animestars-processed'')"

text \<open>
  An inventory page with one card. The script is initialised, the scan runs, the card is
  reported visible and the request for its statistics is sent. Then the answer arrives.
\<close>

definition requested :: state where
  "requested =
     run [Initialise (\<lambda>k. readyBackground), TimerFires 2 (\<lambda>k. readyBackground),
          Intersecting [1] readyBackground]
       (construct onePage ''/inventory/'' 1000000 2)"

definition statsAnswer :: "jsval outcome" where
  "statsAnswer = Resolved (JObj [(''success'', JBool True), (''data'', oldStats)])"

lemma remeltGuard_fields:
  assumes "remeltGuard el s = Some s1"
  shows "document s1 = document s" "detached s1 = detached s" "inFlight s1 = inFlight s"
    "sent s1 = sent s" "currentOverlaysCount s1 = currentOverlaysCount s"
  using assms
  by (auto simp: remeltGuard_def Let_def setTimeout_def split: if_splits option.splits)

lemma lookupElement_cong:
  "document s' = document s \<Longrightarrow> detached s' = detached s \<Longrightarrow> lookupElement s' e = lookupElement s e"
  by (simp add: lookupElement_def allNodes_def forest_def)

lemma matches_cong:
  "document s' = document s \<Longrightarrow> detached s' = detached s \<Longrightarrow> matches s' e sel = matches s e sel"
  by (simp add: matches_def pathOf_def forest_def)

lemma insertOverlay_discards:
  assumes "lookupElement s e = Some el" and "querySelectorAll el overlaySelector \<noteq> []"
  shows "insertOverlay e ov sel s = s"
  using assms by (simp add: insertOverlay_def)

lemma finishOverlay_discards:
  assumes "lookupElement s (element c) = Some el" and "querySelectorAll el overlaySelector \<noteq> []"
  shows "document (finishOverlay c stats s) = document s"
    and "detached (finishOverlay c stats s) = detached s"
proof -
  define s1 where "s1 = s\<lparr>nextNode := nextNode s + 8\<rparr>"
  obtain ov where cr: "createStatsOverlay stats c s = (ov, s1)"
    by (simp add: createStatsOverlay_def Let_def s1_def)
  have l1: "lookupElement s1 (element c) = Some el"
    using assms(1) lookupElement_cong [of s1 s] by (simp add: s1_def)
  have ins: "insertOverlay (element c) ov sel s1 = s1" for sel
    by (rule insertOverlay_discards [OF l1 assms(2)])
  have d: "document s1 = document s" "detached s1 = detached s" by (simp_all add: s1_def)
  show "document (finishOverlay c stats s) = document s"
    unfolding finishOverlay_def cr by (simp add: ins d Let_def split: option.splits)
  show "detached (finishOverlay c stats s) = detached s"
    unfolding finishOverlay_def cr by (simp add: ins d Let_def split: option.splits)
qed

lemma statsResponse_discards:
  assumes "k < length (inFlight s)"
    and "lookupElement s (element (inFlight s ! k)) = Some el"
    and "querySelectorAll el overlaySelector \<noteq> []"
  shows "document (statsResponse k answer s) = document s"
    and "detached (statsResponse k answer s) = detached s"
proof -
  have l: "lookupElement (s\<lparr>inFlight := x, statsCache := y\<rparr>) (element (inFlight s ! k)) = Some el" for x y
    using assms(2) lookupElement_cong [of "s\<lparr>inFlight := x, statsCache := y\<rparr>" s] by simp
  note fin = finishOverlay_discards [OF l assms(3)]
  show "document (statsResponse k answer s) = document s"
    using assms(1)
    by (simp add: statsResponse_def Let_def fin split: outcome.splits option.splits prod.splits)
  show "detached (statsResponse k answer s) = detached s"
    using assms(1)
    by (simp add: statsResponse_def Let_def fin split: outcome.splits option.splits prod.splits)
qed

text \<open>
  C4, as the claim has it, fails on the flag. \<^verbatim>\<open>addStatsOverlay\<close> sets the flag on the
  element it admits before it sends the request, so when the answer arrives the element,
  still in the document, carries the flag; the overlay is inserted all the same.
\<close>

theorem overlay_inserted_although_processed_flag_set:
  "inFlight requested = [\<lparr>element = 1, cardId = JNum 101, cardName = None\<rparr>]
   \<and> documentContains requested 1
   \<and> processedFlag requested 1
   \<and> overlaysOf requested 1 = []
   \<and> overlaysOf (step (StatsAnswer 0 statsAnswer) requested) 1 = [2]"
  by code_simp

text \<open>
  C4 (as amended). The three checks are made when \<^verbatim>\<open>addStatsOverlay\<close> is called,
  before the statistics are fetched: a call for an element that is not in the document
  returns at once, and a call for an element that has an overlay below it or carries the
  flag changes neither the trees nor the counter and sends no request. Once the
  statistics are there the check for an overlay below the element is made again: when
  there is one, the overlay just built is not inserted, in \<^verbatim>\<open>insertOverlay\<close>, in
  \<^verbatim>\<open>finishOverlay\<close> and so in the resumed call. A request that is rejected leaves
  the trees and the counter as they are.
\<close>

theorem overlay_checks_at_admission_and_before_insertion:
  "(\<not> documentContains s (element c) \<longrightarrow> addStatsOverlay c s = s)
   \<and> (lookupElement s (element c) = Some el
        \<and> (querySelector el overlaySelector \<noteq> None \<or> hasAttribute el ''data-animestars-processed'')
       \<longrightarrow> document (addStatsOverlay c s) = document s
           \<and> detached (addStatsOverlay c s) = detached s
           \<and> inFlight (addStatsOverlay c s) = inFlight s
           \<and> sent (addStatsOverlay c s) = sent s
           \<and> currentOverlaysCount (addStatsOverlay c s) = currentOverlaysCount s)
   \<and> (lookupElement s (element c) = Some el \<and> querySelectorAll el overlaySelector \<noteq> []
       \<longrightarrow> insertOverlay (element c) overlay sel s = s
           \<and> document (finishOverlay c stats s) = document s
           \<and> detached (finishOverlay c stats s) = detached s)
   \<and> (k < length (inFlight s) \<and> lookupElement s (element (inFlight s ! k)) = Some el
        \<and> querySelectorAll el overlaySelector \<noteq> []
       \<longrightarrow> document (statsResponse k answer s) = document s
           \<and> detached (statsResponse k answer s) = detached s)
   \<and> document (statsResponse k (Rejected e) s) = document s
   \<and> detached (statsResponse k (Rejected e) s) = detached s
   \<and> currentOverlaysCount (statsResponse k (Rejected e) s) = currentOverlaysCount s"
proof -
  have a: "addStatsOverlay c s = s" if "\<not> documentContains s (element c)"
    using that by (simp add: addStatsOverlay_def)
  have b: "document (addStatsOverlay c s) = document s
           \<and> detached (addStatsOverlay c s) = detached s
           \<and> inFlight (addStatsOverlay c s) = inFlight s
           \<and> sent (addStatsOverlay c s) = sent s
           \<and> currentOverlaysCount (addStatsOverlay c s) = currentOverlaysCount s"
    if l: "lookupElement s (element c) = Some el"
      and g: "querySelector el overlaySelector \<noteq> None \<or> hasAttribute el ''data-animestars-processed''"
  proof (cases "remeltGuard el s")
    case None
    then have "addStatsOverlay c s = s" using l by (simp add: addStatsOverlay_def)
    then show ?thesis by simp
  next
    case (Some s1)
    have "addStatsOverlay c s = s \<or> addStatsOverlay c s = s1"
      using l g Some by (auto simp: addStatsOverlay_def)
    then show ?thesis using remeltGuard_fields [OF Some] by auto
  qed
  have c: "insertOverlay (element c) overlay sel s = s
           \<and> document (finishOverlay c stats s) = document s
           \<and> detached (finishOverlay c stats s) = detached s"
    if "lookupElement s (element c) = Some el" "querySelectorAll el overlaySelector \<noteq> []"
    using insertOverlay_discards [OF that] finishOverlay_discards [OF that] by simp
  have d: "document (statsResponse k answer s) = document s
           \<and> detached (statsResponse k answer s) = detached s"
    if "k < length (inFlight s)" "lookupElement s (element (inFlight s ! k)) = Some el"
       "querySelectorAll el overlaySelector \<noteq> []"
    using statsResponse_discards [OF that] by simp
  have e: "document (statsResponse k (Rejected e) s) = document s"
      "detached (statsResponse k (Rejected e) s) = detached s"
      "currentOverlaysCount (statsResponse k (Rejected e) s) = currentOverlaysCount s"
    by (simp_all add: statsResponse_def Let_def)
  from a b c d e show ?thesis by blast
qed



text \<open>
  The race at insertion. While the first request is out, the dataset update clears the
  flag, the card is reported visible again and a second request goes out; the first
  answer puts the overlay in. The second answer then finds it and inserts nothing.
\<close>

definition raced :: state where
  "raced =
     run [BackgroundMessage databaseUpdated, Intersecting [1] readyBackground,
          StatsAnswer 0 statsAnswer] requested"

definition inventoryCardElement :: card where
  "inventoryCardElement = \<lparr>element = 1, cardId = JNum 101, cardName = None\<rparr>"

theorem overlay_checks_at_admission_and_before_insertion_witness:
  "inFlight raced = [inventoryCardElement]
   \<and> overlaysOf raced 1 = [2]
   \<and> document (step (StatsAnswer 0 statsAnswer) raced) = document raced
   \<and> document (finishOverlay inventoryCardElement oldStats raced) = document raced
   \<and> inFlight (addStatsOverlay inventoryCardElement raced) = inFlight raced
   \<and> \<not> documentContains raced 99
   \<and> addStatsOverlay \<lparr>element = 99, cardId = JNum 101, cardName = None\<rparr> raced = raced"
proof -
  have i: "inFlight raced = [inventoryCardElement]" by code_simp
  have ov: "overlaysOf raced 1 = [2]" by code_simp
  have n: "\<not> documentContains raced 99" by code_simp
  from ov obtain el where l: "lookupElement raced 1 = Some el"
      and q: "querySelectorAll el overlaySelector \<noteq> []"
    by (auto simp: overlaysOf_def split: option.splits)
  from q have q': "querySelector el overlaySelector \<noteq> None"
    by (auto simp: querySelector_def querySelectorAll_def find_None_iff filter_empty_conv)
  have e: "element inventoryCardElement = 1" by (simp add: inventoryCardElement_def)
  have k: "0 < length (inFlight raced)" "element (inFlight raced ! 0) = 1"
    using i e by simp_all
  note t = overlay_checks_at_admission_and_before_insertion
             [of raced inventoryCardElement el _ _ oldStats 0 statsAnswer]
  have a: "document (statsResponse 0 statsAnswer raced) = document raced"
    using t l q k by (simp only: e) blast
  have b: "document (finishOverlay inventoryCardElement oldStats raced) = document raced"
    using t l q by (simp only: e) blast
  have c: "inFlight (addStatsOverlay inventoryCardElement raced) = inFlight raced"
    using t l q' by (simp only: e) blast
  have d: "addStatsOverlay \<lparr>element = 99, cardId = JNum 101, cardName = None\<rparr> raced = raced"
    using overlay_checks_at_admission_and_before_insertion
            [of raced "\<lparr>element = 99, cardId = JNum 101, cardName = None\<rparr>"] n
    by simp
  from i ov a b c n d show ?thesis by (simp add: step_def)
qed


subsection \<open>A card matched through its image\<close>

text \<open>
  A trade page with one item, whose card is matched through its image, and one of the
  tabs. The background answers the lookup of the image with the card's id. The script is
  initialised, the scan runs, the image is reported visible and the request for the
  statistics of the card is sent (\<open>offered\<close>). From there: the answer arrives, the
  dataset update is announced and the image is reported visible again (\<open>redrawn\<close>); or
  the tab is clicked, its delay elapses and the rebuild starts, the image is reported
  visible again, and the two requests are answered (\<open>racing\<close>).
\<close>

definition matchingBackground :: "message \<Rightarrow> jsval outcome" where
  "matchingBackground m =
     (if mtype m = ''findCardByImage''
      then Resolved (JObj [(''success'', JBool True), (''cardId'', JNum 101)])
      else readyBackground m)"

definition tradeItem :: node where
  "tradeItem =
     Node 1 ''DIV'' [(''class'', ''trade__inventory-item'')]
       [Node 2 ''IMG'' [(''src'', ''/uploads/cards_image/5/epic/card.webp'')] []]"

definition tradeInventory :: node where
  "tradeInventory = Node 0 ''BODY'' [] [tradeItem, Node 3 ''DIV'' [(''class'', ''tabs__want__card'')] []]"

definition offered :: state where
  "offered =
     run [Initialise (\<lambda>k. readyBackground), TimerFires 2 (\<lambda>k. readyBackground),
          Intersecting [2] matchingBackground]
       (construct tradeInventory ''/trade/'' 1000000 4)"

definition redrawn :: state where
  "redrawn =
     run [StatsAnswer 0 statsAnswer, BackgroundMessage databaseUpdated,
          Intersecting [2] matchingBackground] offered"

definition racing :: state where
  "racing =
     run [Click 3, TimerFires 3 (\<lambda>k. readyBackground), Intersecting [2] matchingBackground,
          StatsAnswer 0 statsAnswer, StatsAnswer 0 statsAnswer] offered"

text \<open>What the runs below look at: the waiting calls, the overlays below an element and below
  its enclosing item, and the overlays of the document.\<close>

definition overlayView :: "state \<Rightarrow> nat \<Rightarrow> nat \<Rightarrow> card list \<times> nat list \<times> nat list \<times> nat list" where
  "overlayView s e item = (inFlight s, overlaysOf s e, overlaysOf s item, liveOverlays s)"

text \<open>
  An observation on the enclosing item. For a card that is matched through its image the overlay
  goes into the enclosing \<^verbatim>\<open>.trade__inventory-item\<close>, the target of the selector,
  while every guard against a second overlay looks below \<^verbatim>\<open>card.element\<close>, the
  image, where there never is one. Once the flag on the image is cleared the card is
  admitted again. On the page above the item of the one card ends with two overlays
  both ways: after the dataset update, when the card is reported visible again, and when
  a navigation trigger clears the flag while the first request is out and both requests
  are answered.
\<close>

theorem image_matched_card_gets_two_overlays:
  "overlayView offered 2 1 = ([\<lparr>element = 2, cardId = JNum 101, cardName = None\<rparr>], [], [], [])
   \<and> overlayView redrawn 2 1 = ([], [], [4, 12], [4, 12])
   \<and> overlayView racing 2 1 = ([], [], [4, 12], [4, 12])"
  by code_simp

section \<open>The scan debounce, an inactive user and late timers\<close>

text \<open>
  The script is initialised on an empty page and the scan function is invoked at 1000 and
  at 1500; the page keeps the thread until 1990, so that the timer of the first scan,
  due at 1500, runs at 1990, and the timer of the second at 2000, when it is due.
\<close>

definition lateScan :: state where
  "lateScan =
     run [ClockAt 1990, TimerFires 2 (\<lambda>k. readyBackground), TimerFires 3 (\<lambda>k. readyBackground)]
       (burst [1000, 1500] (step (Initialise (\<lambda>k. readyBackground)) (construct emptyPage ''/cards/'' 0 1)))"

definition scanView :: "state \<Rightarrow> bool \<times> timer list \<times> int list" where
  "scanView s = (isUserActive s, timers s, scanLog s)"

text \<open>
  C7 as stated fails in two ways. When the user is inactive (here the tab was hidden)
  the first invocation of a burst is accepted, so it opens the window, but it schedules
  no scan, and the later ones are dropped: no scan has run and none is pending. And the
  spacing holds between the due times, not between the executions: a timer runs no
  earlier than it is due but may run later, and in the run above the two scans execute
  10 ms apart.
\<close>

theorem scan_debounce_fails_when_inactive_or_late:
  "scanView (burst [1000, 1100, 1400] (handleUserLeft (construct emptyPage ''/cards/'' 0 1)))
     = (False, [(1, 30000, CleanupInterval)], [])
   \<and> scanView (burst [1000, 1500] (step (Initialise (\<lambda>k. readyBackground)) (construct emptyPage ''/cards/'' 0 1)))
     = (True, [(1, 30000, CleanupInterval), (2, 1500, ScanTimer), (3, 2000, ScanTimer)], [])
   \<and> scanView lateScan = (True, [(1, 30000, CleanupInterval)], [2000, 1990])"
  by code_simp

section \<open>The cap on the overlays\<close>

text \<open>
  Pages whose body holds the cards as its children, for the runs with many cards: the
  page itself, the selector the inventory cards match, a card once it is admitted, and
  what the script reads on such a page.
\<close>

definition flat :: "node list \<Rightarrow> node" where
  "flat cs = Node 0 ''BODY'' [] cs"

definition inventorySelector :: CardSelector where
  "inventorySelector =
     \<lparr>selector = [[Class ''inventory-card'']], dataIdAttribute = ''data-card-id'',
      dataNameAttribute = None, insertionMethod = Append,
      targetSelector = None, extractFromImage = False\<rparr>"

definition admitted :: "nat \<Rightarrow> node" where
  "admitted i = setAttribute ''data-animestars-processed'' ''true'' (inventoryCard i ''101'')"

lemma inventory_card_selector: "find (\<lambda>sel. matchesPath (selector sel) [inventoryCard i ''101'', flat cs]) cardSelectors
             = Some inventorySelector"
  by code_simp

lemma admitted_card_selector: "find (\<lambda>sel. matchesPath (selector sel) [admitted i, flat cs]) cardSelectors
             = Some inventorySelector"
  by code_simp

lemma inventory_card_id: "extractCardId (inventoryCard i ''101'') inventorySelector = JNum 101"
  by code_simp

lemma admitted_card_layout: "closestAnyIn [[[Class ''lootbox__card'']], [[Class ''owl-item'']], [[Class ''trade__inventory-item'']]]
             [admitted i, flat cs] = None"
  by code_simp

lemma inventory_card_facts: "querySelectorAll (admitted i) overlaySelector = []"
   "querySelector (inventoryCard i ''101'') overlaySelector = None"
   "querySelectorAll (inventoryCard i ''101'') overlaySelector = []"
   "\<not> hasAttribute (inventoryCard i ''101'') ''data-animestars-processed''"
   "extractCardName (inventoryCard i ''101'') inventorySelector = None"
   "nid (admitted i) = i" "nid (inventoryCard i ''101'') = i"
  by code_simp+

lemma subtree_child: "c \<in> set cs \<Longrightarrow> set (subtree c) \<subseteq> set (subtree (Node j t a cs))"
  by (auto simp: subtree_def)

lemma pathTo_absent: "i \<notin> nid ` set (subtree t) \<Longrightarrow> pathTo i t = []"
proof (induction i t rule: pathTo.induct)
  case (1 i j t a cs)
  have ne: "i \<noteq> j" using 1(2) by (auto simp: subtree_def)
  have "pathTo i c = []" if "c \<in> set cs" for c
  proof -
    have "i \<notin> nid ` set (subtree c)" using 1(2) subtree_child [OF that, of j t a] by blast
    with 1(1) [OF ne that] show ?thesis .
  qed
  then have "filter (\<lambda>p. p \<noteq> []) (map (pathTo i) cs) = []" by (simp add: filter_empty_conv)
  then show ?case using ne by simp
qed

lemma updateNode_absent: "i \<notin> nid ` set (subtree t) \<Longrightarrow> updateNode i f t = t"
proof (induction i f t rule: updateNode.induct)
  case (1 i f j t a cs)
  have ne: "i \<noteq> j" using 1(2) by (auto simp: subtree_def)
  have "updateNode i f c = c" if "c \<in> set cs" for c
  proof -
    have "i \<notin> nid ` set (subtree c)" using 1(2) subtree_child [OF that, of j t a] by blast
    with 1(1) [OF ne that] show ?thesis .
  qed
  then have "map (updateNode i f) cs = cs" by (simp add: map_idI)
  then show ?case using ne by simp
qed

lemma find_append_None: "find P xs = None \<Longrightarrow> find P (xs @ ys) = find P ys"
  by (induction xs) (auto split: if_splits)

text \<open>A page whose body holds the element \<open>x\<close> among its children, and its id nowhere else.\<close>

definition holds :: "nat \<Rightarrow> node list \<Rightarrow> node \<Rightarrow> node list \<Rightarrow> bool" where
  "holds i pre x post =
     (i \<noteq> 0 \<and> nid x = i \<and> (\<forall>c \<in> set pre. i \<notin> nid ` set (subtree c))
      \<and> (\<forall>c \<in> set post. i \<notin> nid ` set (subtree c)))"

lemma pathTo_self: "nid x = i \<Longrightarrow> pathTo i x = [x]"
  by (cases x) simp

lemma updateNode_self: "nid x = i \<Longrightarrow> updateNode i f x = f x"
  by (cases x) simp

lemma pathTo_flat:
  assumes "holds i pre x post"
  shows "pathTo i (flat (pre @ x # post)) = [x, flat (pre @ x # post)]"
proof -
  from assms have ne: "i \<noteq> 0" and x: "nid x = i"
    and pre: "\<forall>c \<in> set pre. i \<notin> nid ` set (subtree c)" unfolding holds_def by blast+
  have "filter (\<lambda>p. p \<noteq> []) (map (pathTo i) pre) = []"
    using pre by (simp add: filter_empty_conv pathTo_absent)
  then have "filter (\<lambda>p. p \<noteq> []) (map (pathTo i) (pre @ x # post))
             = [x] # filter (\<lambda>p. p \<noteq> []) (map (pathTo i) post)"
    by (simp add: pathTo_self [OF x])
  then show ?thesis using ne by (simp add: flat_def)
qed

lemma find_flat:
  assumes "holds i pre x post"
  shows "find (\<lambda>n. nid n = i) (subtree (flat (pre @ x # post))) = Some x"
proof -
  from assms have ne: "i \<noteq> 0" and x: "nid x = i"
    and pre: "\<forall>c \<in> set pre. i \<notin> nid ` set (subtree c)" unfolding holds_def by blast+
  have "find (\<lambda>n. nid n = i) (concat (map (\<lambda>c. c # descendants c) pre)) = None"
    using pre by (auto simp: find_None_iff subtree_def)
  then have "find (\<lambda>n. nid n = i) (concat (map (\<lambda>c. c # descendants c) (pre @ x # post))) = Some x"
    using x by (simp add: find_append_None)
  then show ?thesis using ne by (simp add: flat_def subtree_def)
qed

lemma updateNode_flat:
  assumes "holds i pre x post"
  shows "updateNode i f (flat (pre @ x # post)) = flat (pre @ f x # post)"
proof -
  from assms have ne: "i \<noteq> 0" and x: "nid x = i"
    and pre: "\<forall>c \<in> set pre. i \<notin> nid ` set (subtree c)"
    and post: "\<forall>c \<in> set post. i \<notin> nid ` set (subtree c)" unfolding holds_def by blast+
  have "map (updateNode i f) pre = pre" "map (updateNode i f) post = post"
    using pre post by (simp_all add: map_idI updateNode_absent)
  then show ?thesis using ne by (simp add: flat_def updateNode_self [OF x])
qed

text \<open>The same for a state whose document is such a page and that holds no detached tree.\<close>

lemma flat_state:
  assumes "document s = flat (pre @ x # post)" and "detached s = []" and "holds i pre x post"
  shows "pathOf s i = [x, flat (pre @ x # post)]"
    and "lookupElement s i = Some x"
    and "documentContains s i"
    and "matches s i sel = matchesPath sel [x, flat (pre @ x # post)]"
    and "updateElement i f s = s\<lparr>document := flat (pre @ f x # post), detached := []\<rparr>"
proof -
  show p: "pathOf s i = [x, flat (pre @ x # post)]"
    by (simp add: pathOf_def forest_def assms(1,2) pathTo_flat [OF assms(3)])
  show "lookupElement s i = Some x"
    by (simp add: lookupElement_def allNodes_def forest_def assms(1,2) find_flat [OF assms(3)])
  have "x \<in> set (subtree (flat (pre @ x # post)))" by (simp add: flat_def subtree_def)
  moreover have "nid x = i" using assms(3) unfolding holds_def by blast
  ultimately show "documentContains s i" unfolding documentContains_def assms(1) by blast
  show "matches s i sel = matchesPath sel [x, flat (pre @ x # post)]"
    by (simp add: matches_def p)
  show "updateElement i f s = s\<lparr>document := flat (pre @ f x # post), detached := []\<rparr>"
    by (simp add: updateElement_def assms(1,2) updateNode_flat [OF assms(3)])
qed

definition waitingCard :: "nat \<Rightarrow> card" where
  "waitingCard i = \<lparr>element = i, cardId = JNum 101, cardName = None\<rparr>"

definition overlayNode :: "nat \<Rightarrow> node" where
  "overlayNode n =
     Node n ''DIV'' [(''class'', ''card-stats-overlay'')]
       [Node (n + 1) ''DIV'' [(''class'', ''card-stats''), (''data-layout'', ''horizontal'')]
          [statSpan (n + 2) ''fas fa-users'' (JNum 101),
           statSpan (n + 4) ''fas fa-heart'' (JNum 101),
           statSpan (n + 6) ''fas fa-sync-alt'' (JNum 101)]]"

definition shown :: "nat \<Rightarrow> nat \<Rightarrow> node" where
  "shown i n = appendChild (overlayNode n) (admitted i)"

lemma inventory_path: "\<not> includesStr ''/inventory/'' ''/trade/''"
  "\<not> includesStr ''/inventory/'' ''/cards_remelt/''"
  by code_simp+

lemma visibleCard_admits:
  assumes doc: "document s = flat (pre @ inventoryCard i ''101'' # post)" and det: "detached s = []"
    and h: "holds i pre (inventoryCard i ''101'') post"
    and act: "isUserActive s" and path: "pathname s = ''/inventory/''"
    and cap: "currentOverlaysCount s < MAX_TOTAL_OVERLAYS"
    and cache: "statsCache s (JNum 101) = None"
  shows "visibleCard send s i
           = s\<lparr>document := flat (pre @ admitted i # post), detached := [],
               sent := getCardStatsMessage (JNum 101) # sent s,
               inFlight := inFlight s @ [waitingCard i]\<rparr>"
proof -
  note fs = flat_state [OF doc det h]
  have sel: "find (\<lambda>sel. matches s i (selector sel)) cardSelectors = Some inventorySelector"
    by (simp add: fs(4) inventory_card_selector)
  have ex: "extractCardIdAsync send (inventoryCard i ''101'') inventorySelector s = (JNum 101, s)"
    using inventory_card_id [of i] by (simp add: extractCardIdAsync_def Let_def inventorySelector_def)
  have unl: "\<not> isUnlimitedPage s" by (simp add: isUnlimitedPage_def path inventory_path)
  have rem: "remeltGuard (inventoryCard i ''101'') s = Some s"
    by (simp add: remeltGuard_def isRemeltPage_def path inventory_path)
  have add: "addStatsOverlay (waitingCard i) s
           = s\<lparr>document := flat (pre @ admitted i # post), detached := [],
               sent := getCardStatsMessage (JNum 101) # sent s,
               inFlight := inFlight s @ [waitingCard i]\<rparr>"
    using cap
    by (simp add: addStatsOverlay_def unl fs(2,3) fs(5) rem inventory_card_facts cache Let_def waitingCard_def
                  admitted_def)
  show ?thesis
    by (simp add: visibleCard_def act sel fs(2) ex inventory_card_facts add [unfolded waitingCard_def] waitingCard_def)
qed

lemma statsResponse_inserts:
  assumes doc: "document s = flat (pre @ admitted i # post)" and det: "detached s = []"
    and h: "holds i pre (admitted i) post"
    and fl: "inFlight s = waitingCard i # rest"
  shows "statsResponse 0 statsAnswer s
           = s\<lparr>inFlight := rest, statsCache := (statsCache s)(JNum 101 \<mapsto> oldStats),
               nextNode := nextNode s + 8,
               document := flat (pre @ shown i (nextNode s) # post), detached := [],
               currentOverlaysCount := currentOverlaysCount s + 1\<rparr>"
proof -
  define s1 where "s1 = s\<lparr>inFlight := rest, statsCache := (statsCache s)(JNum 101 \<mapsto> oldStats)\<rparr>"
  define s2 where "s2 = s1\<lparr>nextNode := nextNode s + 8\<rparr>"
  have d1: "document s1 = flat (pre @ admitted i # post)" "detached s1 = []"
    by (simp_all add: s1_def doc det)
  have d2: "document s2 = flat (pre @ admitted i # post)" "detached s2 = []"
    by (simp_all add: s2_def d1)
  note fs1 = flat_state [OF d1 h]
  note fs2 = flat_state [OF d2 h]
  have lay: "initialLayout s1 i = ''horizontal''"
    unfolding initialLayout_def fs1(1) admitted_card_layout by simp
  have n1: "nextNode s1 = nextNode s" by (simp add: s1_def)
  have cr: "createStatsOverlay oldStats (waitingCard i) s1 = (overlayNode (nextNode s), s2)"
    by (simp add: createStatsOverlay_def Let_def lay n1 overlayNode_def waitingCard_def s2_def)
  have sel: "find (\<lambda>sel. matches s2 i (selector sel)) cardSelectors = Some inventorySelector"
    by (simp add: fs2(4) admitted_card_selector)
  have ins: "insertOverlay i (overlayNode (nextNode s)) inventorySelector s2
               = s2\<lparr>document := flat (pre @ shown i (nextNode s) # post), detached := []\<rparr>"
    by (simp add: insertOverlay_def fs2(2) inventory_card_facts inventorySelector_def fs2(5) Let_def shown_def)
  have fin: "finishOverlay (waitingCard i) oldStats s1
               = s2\<lparr>document := flat (pre @ shown i (nextNode s) # post), detached := [],
                    currentOverlaysCount := currentOverlaysCount s2 + 1\<rparr>"
  proof -
    have el: "element (waitingCard i) = i" by (simp add: waitingCard_def)
    show ?thesis unfolding finishOverlay_def cr el by (simp add: sel ins Let_def)
  qed
  have cid: "cardId (waitingCard i) = JNum 101" by (simp add: waitingCard_def)
  have "statsResponse 0 statsAnswer s = finishOverlay (waitingCard i) oldStats s1"
    unfolding statsResponse_def fl
    by (simp add: Let_def statsAnswer_def oldStats_def s1_def cid)
  also note fin
  finally show ?thesis by (simp add: s2_def s1_def)
qed

text \<open>
  An inventory page with \<open>n\<close> cards, all of the card 101. The script is initialised, the
  observer reports all the cards visible at once, and the \<open>n\<close> requests are answered.
\<close>

definition inventoryOf :: "nat \<Rightarrow> node" where
  "inventoryOf n = flat (map (\<lambda>i. inventoryCard i ''101'') [1..<Suc n])"

definition crowded :: "nat \<Rightarrow> state" where
  "crowded n =
     run (Initialise (\<lambda>k. readyBackground) # Intersecting [1..<Suc n] readyBackground
            # replicate n (StatsAnswer 0 statsAnswer))
       (construct (inventoryOf n) ''/inventory/'' 0 (Suc n))"

lemma inventory_init: "\<not> includesStr ''/inventory/'' ''/pack/''"
  by code_simp

lemma init_ready:
  "init (\<lambda>k. readyBackground) (construct doc ''/inventory/'' 0 fresh)
     = (construct doc ''/inventory/'' 0 fresh)\<lparr>isInitialized := True, intersectionObserver := Some []\<rparr>"
  by (simp add: init_def initWithRetry_def maxRetryAttempts_def numeral_3_eq_3 initAttempt_def
        pingBackground_def readyBackground_def pingMessage_def getCardsCountMessage_def
        getPropOpt_def initLazyLoading_def startDOMObserver_def setupNavigationTriggers_def
        processExistingCardsDebounced_def PROCESS_DEBOUNCE_DELAY_def construct_def
        setInterval_def setTimeout_def inventory_init inventory_path Let_def)

text \<open>The state while the cards are admitted, and while the requests are answered.\<close>

definition admitting :: "nat \<Rightarrow> nat \<Rightarrow> state \<Rightarrow> bool" where
  "admitting n j s =
     (document s = flat (map admitted [1..<Suc j] @ map (\<lambda>i. inventoryCard i ''101'') [Suc j..<Suc n])
      \<and> detached s = [] \<and> isUserActive s \<and> pathname s = ''/inventory/''
      \<and> currentOverlaysCount s = 0 \<and> statsCache s (JNum 101) = None
      \<and> inFlight s = map waitingCard [1..<Suc j] \<and> nextNode s = Suc n)"

definition answering :: "nat \<Rightarrow> nat \<Rightarrow> state \<Rightarrow> bool" where
  "answering n j s =
     (document s = flat (map (\<lambda>i. shown i (Suc n + 8 * (i - 1))) [1..<Suc j] @ map admitted [Suc j..<Suc n])
      \<and> detached s = [] \<and> pathname s = ''/inventory/''
      \<and> currentOverlaysCount s = int j
      \<and> inFlight s = map waitingCard [Suc j..<Suc n] \<and> nextNode s = Suc n + 8 * j)"

lemma ids_card: "nid ` set (subtree (inventoryCard k ''101'')) = {k}"
  "nid ` set (subtree (admitted k)) = {k}"
  by (simp_all add: subtree_def inventoryCard_def admitted_def setAttribute_def)

lemma ids_shown: "nid ` set (subtree (shown k m)) = {k, m, m + 1, m + 2, m + 3, m + 4, m + 5, m + 6, m + 7}"
  by (auto simp: subtree_def shown_def overlayNode_def statSpan_def appendChild_def
                 inventoryCard_def admitted_def setAttribute_def)

lemma admitting_step:
  assumes "admitting n j s" and "j < n"
  shows "admitting n (Suc j) (visibleCard send s (Suc j))"
proof -
  define pre where "pre = map admitted [1..<Suc j]"
  define post where "post = map (\<lambda>i. inventoryCard i ''101'') [Suc (Suc j)..<Suc n]"
  have split: "[Suc j..<Suc n] = Suc j # [Suc (Suc j)..<Suc n]"
    using assms(2) by (simp add: upt_conv_Cons)
  from assms(1) have doc: "document s = flat (pre @ inventoryCard (Suc j) ''101'' # post)"
    unfolding admitting_def pre_def post_def split by simp
  from assms(1) have rest: "detached s = []" "isUserActive s" "pathname s = ''/inventory/''"
      "currentOverlaysCount s = 0" "statsCache s (JNum 101) = None"
      "inFlight s = map waitingCard [1..<Suc j]" "nextNode s = Suc n"
    unfolding admitting_def by blast+
  have h: "holds (Suc j) pre (inventoryCard (Suc j) ''101'') post"
    unfolding holds_def pre_def post_def by (auto simp: ids_card inventory_card_facts)
  have cap: "currentOverlaysCount s < MAX_TOTAL_OVERLAYS" by (simp add: rest MAX_TOTAL_OVERLAYS_def)
  note eq = visibleCard_admits [OF doc rest(1) h rest(2,3) cap rest(5)]
  show ?thesis
    unfolding admitting_def eq using rest
    by (simp add: pre_def post_def)
qed

lemma admitting_all:
  assumes "admitting n 0 s" and "j \<le> n"
  shows "admitting n j (foldl (visibleCard send) s [1..<Suc j])"
  using assms(2)
proof (induction j)
  case 0
  then show ?case using assms(1) by simp
next
  case (Suc j)
  then have "admitting n j (foldl (visibleCard send) s [1..<Suc j])" and "j < n" by simp_all
  from admitting_step [OF this] show ?case by simp
qed

lemma answering_step:
  assumes "answering n j s" and "j < n"
  shows "answering n (Suc j) (statsResponse 0 statsAnswer s)"
proof -
  define pre where "pre = map (\<lambda>i. shown i (Suc n + 8 * (i - 1))) [1..<Suc j]"
  define post where "post = map admitted [Suc (Suc j)..<Suc n]"
  have split: "[Suc j..<Suc n] = Suc j # [Suc (Suc j)..<Suc n]"
    using assms(2) by (simp add: upt_conv_Cons)
  from assms(1) have doc: "document s = flat (pre @ admitted (Suc j) # post)"
    unfolding answering_def pre_def post_def split by simp
  from assms(1) have rest: "detached s = []" "pathname s = ''/inventory/''"
      "currentOverlaysCount s = int j"
      "inFlight s = waitingCard (Suc j) # map waitingCard [Suc (Suc j)..<Suc n]"
      "nextNode s = Suc n + 8 * j"
    unfolding answering_def split by simp_all
  have h: "holds (Suc j) pre (admitted (Suc j)) post"
    unfolding holds_def pre_def post_def using assms(2)
    by (auto simp: ids_card ids_shown inventory_card_facts)
  note eq = statsResponse_inserts [OF doc rest(1) h rest(4)]
  show ?thesis
    unfolding answering_def eq using rest
    by (simp add: pre_def post_def)
qed

lemma answering_all:
  assumes "answering n 0 s" and "j \<le> n"
  shows "answering n j (foldl (\<lambda>st ev. step ev st) s (replicate j (StatsAnswer 0 statsAnswer)))"
  using assms(2)
proof (induction j)
  case 0
  then show ?case using assms(1) by simp
next
  case (Suc j)
  then have a: "answering n j (foldl (\<lambda>st ev. step ev st) s (replicate j (StatsAnswer 0 statsAnswer)))"
    and "j < n" by simp_all
  have "replicate (Suc j) (StatsAnswer 0 statsAnswer) = replicate j (StatsAnswer 0 statsAnswer) @ [StatsAnswer 0 statsAnswer]"
    by (simp add: replicate_append_same)
  then show ?case using answering_step [OF a \<open>j < n\<close>] by (simp add: step_def)
qed

lemma crowded_answering: "answering n n (crowded n)"
proof -
  define s0 where "s0 = init (\<lambda>k. readyBackground) (construct (inventoryOf n) ''/inventory/'' 0 (Suc n))"
  have s0: "s0 = (construct (inventoryOf n) ''/inventory/'' 0 (Suc n))\<lparr>isInitialized := True, intersectionObserver := Some []\<rparr>"
    unfolding s0_def by (rule init_ready)
  have a0: "admitting n 0 s0"
    unfolding admitting_def s0
    by (simp add: construct_def setInterval_def setTimeout_def inventoryOf_def)
  have obs: "intersectionObserver s0 \<noteq> None" "isUserActive s0"
    unfolding s0 by (simp_all add: construct_def setInterval_def setTimeout_def)
  define s1 where "s1 = foldl (visibleCard readyBackground) s0 [1..<Suc n]"
  have a1: "admitting n n s1" unfolding s1_def by (rule admitting_all [OF a0]) simp
  then have b0: "answering n 0 s1" unfolding admitting_def answering_def by simp
  have i: "step (Initialise (\<lambda>k. readyBackground)) (construct (inventoryOf n) ''/inventory/'' 0 (Suc n)) = s0"
    by (simp add: step_def s0_def)
  have v: "step (Intersecting [1..<Suc n] readyBackground) s0 = s1"
    using obs by (auto simp: step_def processVisibleCards_def s1_def simp del: upt_Suc)
  have "crowded n = foldl (\<lambda>st ev. step ev st) s1 (replicate n (StatsAnswer 0 statsAnswer))"
    unfolding crowded_def run_def by (simp only: foldl.simps i v)
  with answering_all [OF b0, of n] show ?thesis by simp
qed

lemma overlays_shown:
  "filter (matchesCompound overlaySelector) (shown k m # descendants (shown k m)) = [overlayNode m]"
  by code_simp

lemma overlays_flat_shown:
  "length (filter (matchesCompound overlaySelector)
             (concat (map (\<lambda>c. c # descendants c) (map (\<lambda>i. shown i (f i)) xs)))) = length xs"
proof (induction xs)
  case Nil
  then show ?case by simp
next
  case (Cons a xs)
  have "concat (map (\<lambda>c. c # descendants c) (map (\<lambda>i. shown i (f i)) (a # xs)))
        = (shown a (f a) # descendants (shown a (f a)))
          @ concat (map (\<lambda>c. c # descendants c) (map (\<lambda>i. shown i (f i)) xs))"
    by simp
  then have "filter (matchesCompound overlaySelector)
          (concat (map (\<lambda>c. c # descendants c) (map (\<lambda>i. shown i (f i)) (a # xs))))
        = [overlayNode (f a)]
          @ filter (matchesCompound overlaySelector)
              (concat (map (\<lambda>c. c # descendants c) (map (\<lambda>i. shown i (f i)) xs)))"
    by (simp only: filter_append overlays_shown)
  then show ?case using Cons by simp
qed

lemma answered_all:
  assumes "answering n n s"
  shows "\<not> isUnlimitedPage s" and "currentOverlaysCount s = int n"
    and "length (overlaysOf s 0) = n" and "inFlight s = []"
proof -
  from assms have doc: "document s = flat (map (\<lambda>i. shown i (Suc n + 8 * (i - 1))) [1..<Suc n])"
    and det: "detached s = []" and path: "pathname s = ''/inventory/''"
    and cnt: "currentOverlaysCount s = int n" and fl: "inFlight s = []"
    unfolding answering_def by simp_all
  show "\<not> isUnlimitedPage s" by (simp add: isUnlimitedPage_def path inventory_path)
  show "currentOverlaysCount s = int n" by (rule cnt)
  show "inFlight s = []" by (rule fl)
  have l: "lookupElement s 0 = Some (document s)"
    by (simp add: lookupElement_def allNodes_def forest_def subtree_def doc flat_def)
  have "length (querySelectorAll (document s) overlaySelector) = length [1..<Suc n]"
    unfolding doc querySelectorAll_def flat_def descendants.simps by (rule overlays_flat_shown)
  then show "length (overlaysOf s 0) = n" by (simp add: overlaysOf_def l)
qed

text \<open>
  C5, as the claim has it, fails. On the inventory page with 201 cards, when the observer
  reports them all at once, all 201 calls pass the cap check, the counter being 0 while
  no answer has come; each answer then inserts its overlay. The page is not an unlimited
  one, and it ends with 201 overlays below its body, the counter at 201.
\<close>

theorem cap_is_passed_by_calls_admitted_together:
  "\<not> isUnlimitedPage (crowded 201)
   \<and> currentOverlaysCount (crowded 201) = 201
   \<and> length (overlaysOf (crowded 201) 0) = 201
   \<and> MAX_TOTAL_OVERLAYS = 200"
  using answered_all [OF crowded_answering [of 201]] by (simp add: MAX_TOTAL_OVERLAYS_def)

text \<open>What reads the page reads it the same whatever the counter is.\<close>

lemma counter_reads:
  "pathOf (s\<lparr>currentOverlaysCount := m\<rparr>) i = pathOf s i"
  "lookupElement (s\<lparr>currentOverlaysCount := m\<rparr>) i = lookupElement s i"
  "matches (s\<lparr>currentOverlaysCount := m\<rparr>) i sel = matches s i sel"
  "closest (s\<lparr>currentOverlaysCount := m\<rparr>) i sel = closest s i sel"
  "documentContains (s\<lparr>currentOverlaysCount := m\<rparr>) i = documentContains s i"
  "parentOf (s\<lparr>currentOverlaysCount := m\<rparr>) i = parentOf s i"
  "isUnlimitedPage (s\<lparr>currentOverlaysCount := m\<rparr>) = isUnlimitedPage s"
  "isRemeltPage (s\<lparr>currentOverlaysCount := m\<rparr>) = isRemeltPage s"
  by (simp_all add: pathOf_def lookupElement_def allNodes_def forest_def matches_def closest_def
        documentContains_def parentOf_def isUnlimitedPage_def isRemeltPage_def)

lemma counter_reads_more:
  "initialLayout (s\<lparr>currentOverlaysCount := m\<rparr>) i = initialLayout s i"
  "querySelectorIn (s\<lparr>currentOverlaysCount := m\<rparr>) el sel = querySelectorIn s el sel"
  by (simp_all add: initialLayout_def querySelectorIn_def counter_reads cong: option.case_cong if_cong)

lemma updateElement_counter:
  "updateElement i f (s\<lparr>currentOverlaysCount := m\<rparr>) = (updateElement i f s)\<lparr>currentOverlaysCount := m\<rparr>"
  "currentOverlaysCount (updateElement i f s) = currentOverlaysCount s"
  by (simp_all add: updateElement_def)

lemma insertOverlay_counter:
  "insertOverlay e ov sel (s\<lparr>currentOverlaysCount := m\<rparr>)
     = (insertOverlay e ov sel s)\<lparr>currentOverlaysCount := m\<rparr>"
  "currentOverlaysCount (insertOverlay e ov sel s) = currentOverlaysCount s"
  by (simp_all add: insertOverlay_def counter_reads counter_reads_more updateElement_counter Let_def
        split: option.splits insertion.splits)

lemma finishOverlay_counter:
  "finishOverlay c stats (s\<lparr>currentOverlaysCount := m\<rparr>)
     = (finishOverlay c stats s)
         \<lparr>currentOverlaysCount := m + (currentOverlaysCount (finishOverlay c stats s) - currentOverlaysCount s)\<rparr>"
proof -
  define s1 where "s1 = s\<lparr>nextNode := nextNode s + 8\<rparr>"
  obtain ov where cr: "createStatsOverlay stats c s = (ov, s1)"
    by (simp add: createStatsOverlay_def Let_def s1_def)
  have cr': "createStatsOverlay stats c (s\<lparr>currentOverlaysCount := m\<rparr>) = (ov, s1\<lparr>currentOverlaysCount := m\<rparr>)"
    using cr by (simp add: createStatsOverlay_def Let_def s1_def counter_reads counter_reads_more)
  have c1: "currentOverlaysCount s1 = currentOverlaysCount s" by (simp add: s1_def)
  show ?thesis
    unfolding finishOverlay_def cr cr'
    by (simp add: counter_reads insertOverlay_counter c1 Let_def split: option.splits)
qed

lemma statsResponse_counter:
  "statsResponse k answer (s\<lparr>currentOverlaysCount := m\<rparr>)
     = (statsResponse k answer s)
         \<lparr>currentOverlaysCount := m + (currentOverlaysCount (statsResponse k answer s) - currentOverlaysCount s)\<rparr>"
proof (cases "k \<ge> length (inFlight s)")
  case True
  then show ?thesis by (simp add: statsResponse_def)
next
  case False
  define c where "c = inFlight s ! k"
  define rest where "rest = take k (inFlight s) @ drop (Suc k) (inFlight s)"
  define s1 where "s1 = s\<lparr>inFlight := rest\<rparr>"
  define body where "body = (\<lambda>t. case answer of
       Rejected e \<Rightarrow> t
     | Resolved response \<Rightarrow>
        (case (getProp response ''success'', getProp response ''data'') of
           (Some ok, Some stats) \<Rightarrow>
             if \<not> truthy ok \<or> \<not> truthy stats then t
             else finishOverlay c stats (t\<lparr>statsCache := (statsCache t)(cardId c \<mapsto> stats)\<rparr>)
         | _ \<Rightarrow> t))"
  have e1: "(s\<lparr>currentOverlaysCount := m\<rparr>)\<lparr>inFlight := rest\<rparr> = s1\<lparr>currentOverlaysCount := m\<rparr>"
    unfolding s1_def by (cases s) simp
  have A: "statsResponse k answer s = body s1"
    using False by (simp add: statsResponse_def Let_def body_def s1_def c_def rest_def
        split: outcome.split option.split prod.split)
  have "statsResponse k answer (s\<lparr>currentOverlaysCount := m\<rparr>)
          = body ((s\<lparr>currentOverlaysCount := m\<rparr>)\<lparr>inFlight := rest\<rparr>)"
    using False by (simp add: statsResponse_def Let_def body_def c_def rest_def
        split: outcome.split option.split prod.split)
  then have B: "statsResponse k answer (s\<lparr>currentOverlaysCount := m\<rparr>) = body (s1\<lparr>currentOverlaysCount := m\<rparr>)"
    by (simp only: e1)
  have C: "body (t\<lparr>currentOverlaysCount := m\<rparr>)
             = (body t)\<lparr>currentOverlaysCount := m + (currentOverlaysCount (body t) - currentOverlaysCount t)\<rparr>"
    for t
  proof -
    have fin: "finishOverlay c stats ((t\<lparr>currentOverlaysCount := m\<rparr>)\<lparr>statsCache := y\<rparr>)
        = (finishOverlay c stats (t\<lparr>statsCache := y\<rparr>))
           \<lparr>currentOverlaysCount := m + (currentOverlaysCount (finishOverlay c stats (t\<lparr>statsCache := y\<rparr>))
                - currentOverlaysCount t)\<rparr>" for stats y
    proof -
      have eq: "(t\<lparr>currentOverlaysCount := m\<rparr>)\<lparr>statsCache := y\<rparr>
                  = (t\<lparr>statsCache := y\<rparr>)\<lparr>currentOverlaysCount := m\<rparr>"
        by (cases t) simp
      show ?thesis
        unfolding eq using finishOverlay_counter [where s = "t\<lparr>statsCache := y\<rparr>" and m = m and c = c and stats = stats]
        by simp
    qed
    show ?thesis
    proof (cases answer)
      case (Rejected e)
      then show ?thesis by (simp add: body_def)
    next
      case (Resolved response)
      show ?thesis
      proof (cases "getProp response ''success''")
        case None
        then show ?thesis using Resolved by (simp add: body_def)
      next
        case ok: (Some ok)
        show ?thesis
        proof (cases "getProp response ''data''")
          case None
          then show ?thesis using Resolved ok by (simp add: body_def)
        next
          case (Some stats)
          show ?thesis
          proof (cases "\<not> truthy ok \<or> \<not> truthy stats")
            case True
            then show ?thesis using Resolved ok Some by (auto simp: body_def)
          next
            case False
            then have l: "body (t\<lparr>currentOverlaysCount := m\<rparr>)
                = finishOverlay c stats ((t\<lparr>currentOverlaysCount := m\<rparr>)\<lparr>statsCache := (statsCache t)(cardId c \<mapsto> stats)\<rparr>)"
              using Resolved ok Some by (simp add: body_def)
            from False have r: "body t = finishOverlay c stats (t\<lparr>statsCache := (statsCache t)(cardId c \<mapsto> stats)\<rparr>)"
              using Resolved ok Some by (simp add: body_def)
            show ?thesis unfolding l r by (rule fin)
          qed
        qed
      qed
    qed
  qed
  have c1: "currentOverlaysCount s1 = currentOverlaysCount s" by (simp add: s1_def)
  show ?thesis unfolding B C A [symmetric] c1 ..
qed

text \<open>Removing nodes adds no identity, and a removed identity is gone below the root.\<close>

lemma removeWhere_nid: "nid (removeWhere P t) = nid t"
  by (cases t) simp

lemma removeWhere_ids: "nid ` set (subtree (removeWhere P t)) \<subseteq> nid ` set (subtree t)"
proof (induction P t rule: removeWhere.induct)
  case (1 P j t a cs)
  have "nid ` set (subtree (removeWhere P c)) \<subseteq> nid ` set (subtree (Node j t a cs))"
    if "c \<in> set cs" "\<not> P c" for c
  proof -
    have "nid ` set (subtree (removeWhere P c)) \<subseteq> nid ` set (subtree c)"
      using 1 that by simp
    moreover have "set (subtree c) \<subseteq> set (subtree (Node j t a cs))"
      using that(1) by (auto simp: subtree_def)
    ultimately show ?thesis by blast
  qed
  then show ?case by (auto simp: subtree_def)
qed

lemma subtree_unfold:
  "set (subtree (Node j t a cs)) = insert (Node j t a cs) (\<Union>c \<in> set cs. set (subtree c))"
  by (auto simp: subtree_def)

lemma removeWhere_gone:
  "nid t \<noteq> ov \<Longrightarrow> ov \<notin> nid ` set (subtree (removeWhere (\<lambda>n. nid n = ov) t))"
proof (induction t)
  case (Node j t a cs)
  let ?P = "\<lambda>n. nid n = ov"
  let ?cs = "map (removeWhere ?P) (filter (\<lambda>c. \<not> ?P c) cs)"
  have kids: "ov \<notin> nid ` set (subtree c')" if "c' \<in> set ?cs" for c'
  proof -
    from that obtain c where c: "c \<in> set cs" "nid c \<noteq> ov" "c' = removeWhere ?P c" by auto
    from Node.IH [OF c(1) c(2)] c(3) show ?thesis by simp
  qed
  have "removeWhere ?P (Node j t a cs) = Node j t a ?cs" by simp
  then have "set (subtree (removeWhere ?P (Node j t a cs)))
               = insert (Node j t a ?cs) (\<Union>c \<in> set ?cs. set (subtree c))"
    by (simp only: subtree_unfold)
  moreover have "nid (Node j t a ?cs) \<noteq> ov" using Node.prems by simp
  ultimately show ?case using kids by auto
qed

lemma removeExcess_counter:
  "currentOverlaysCount (removeExcess k ovs s) = currentOverlaysCount s - int (min k (length ovs))"
  by (induction k ovs s rule: removeExcess.induct) (simp_all add: removeNode_def)

lemma removeExcess_ids:
  "nid (document (removeExcess k ovs s)) = nid (document s)
   \<and> nid ` set (subtree (document (removeExcess k ovs s))) \<subseteq> nid ` set (subtree (document s))"
proof (induction k ovs s rule: removeExcess.induct)
  case (3 k ov ovs s)
  let ?s1 = "(removeNode ov s)\<lparr>currentOverlaysCount := currentOverlaysCount s - 1\<rparr>"
  have a: "nid (document ?s1) = nid (document s)" by (simp add: removeNode_def removeWhere_nid)
  have b: "nid ` set (subtree (document ?s1)) \<subseteq> nid ` set (subtree (document s))"
    using removeWhere_ids [of "\<lambda>n. nid n = ov" "document s"] by (simp add: removeNode_def)
  from 3 have c: "nid (document (removeExcess k ovs ?s1)) = nid (document ?s1)"
    and d: "nid ` set (subtree (document (removeExcess k ovs ?s1))) \<subseteq> nid ` set (subtree (document ?s1))"
    by blast+
  have unfold: "removeExcess (Suc k) (ov # ovs) s = removeExcess k ovs ?s1" by simp
  from d b have "nid ` set (subtree (document (removeExcess k ovs ?s1))) \<subseteq> nid ` set (subtree (document s))"
    by (rule order_trans)
  with a c show ?case unfolding unfold by simp
qed simp_all

lemma removeExcess_gone:
  assumes "ov \<in> set (take k ovs)" and "ov \<noteq> nid (document s)"
  shows "ov \<notin> nid ` set (subtree (document (removeExcess k ovs s)))"
  using assms
proof (induction k ovs s rule: removeExcess.induct)
  case (3 k o' ovs s)
  let ?s1 = "(removeNode o' s)\<lparr>currentOverlaysCount := currentOverlaysCount s - 1\<rparr>"
  have root: "nid (document ?s1) = nid (document s)" by (simp add: removeNode_def removeWhere_nid)
  show ?case
  proof (cases "ov = o'")
    case True
    have "ov \<notin> nid ` set (subtree (document ?s1))"
      using removeWhere_gone [of "document s" ov] 3(3) True by (simp add: removeNode_def)
    with removeExcess_ids [of k ovs ?s1] show ?thesis by auto
  next
    case False
    with 3(2) have "ov \<in> set (take k ovs)" by simp
    from 3(1) [OF this] 3(3) root show ?thesis by simp
  qed
qed simp_all

lemma removeExcess_page:
  "pathname (removeExcess k ovs s) = pathname s"
  by (induction k ovs s rule: removeExcess.induct) (simp_all add: removeNode_def)

text \<open>The first loop of the sweep removes nothing when no overlay of the document is stale.\<close>

lemma stale_loop_idle:
  assumes "\<forall>ov \<in> set ovs. \<not> staleOverlay s ov"
  shows "foldl (\<lambda>st ov. if staleOverlay st ov
                          then (removeNode ov st)\<lparr>currentOverlaysCount := currentOverlaysCount st - 1\<rparr>
                          else st) s ovs = s"
  using assms by (induction ovs) simp_all

lemma stale_root: "staleOverlay s (nid (document s))"
proof -
  have "pathTo (nid (document s)) (document s) = [document s]"
    by (cases "document s") simp
  then show ?thesis by (simp add: staleOverlay_def parentOf_def pathOf_def forest_def)
qed

lemma performCleanup_trims:
  assumes "\<not> isUnlimitedPage s" and "\<forall>ov \<in> set (liveOverlays s). \<not> staleOverlay s ov"
    and "currentOverlaysCount s > MAX_TOTAL_OVERLAYS"
    and "currentOverlaysCount s - MAX_TOTAL_OVERLAYS \<le> int (length (liveOverlays s))"
  shows "currentOverlaysCount (performCleanup s) = MAX_TOTAL_OVERLAYS"
    and "\<forall>ov \<in> set (take (nat (currentOverlaysCount s - MAX_TOTAL_OVERLAYS)) (liveOverlays s)).
           ov \<notin> nid ` set (subtree (document (performCleanup s)))"
proof -
  let ?k = "nat (currentOverlaysCount s - MAX_TOTAL_OVERLAYS)"
  have eq: "performCleanup s = removeExcess ?k (liveOverlays s) s"
    using assms(1,3) by (simp add: performCleanup_def stale_loop_idle [OF assms(2)] Let_def)
  show "currentOverlaysCount (performCleanup s) = MAX_TOTAL_OVERLAYS"
    unfolding eq removeExcess_counter using assms(3,4) by simp
  show "\<forall>ov \<in> set (take ?k (liveOverlays s)). ov \<notin> nid ` set (subtree (document (performCleanup s)))"
  proof
    fix ov assume a: "ov \<in> set (take ?k (liveOverlays s))"
    then have "ov \<in> set (liveOverlays s)" by (rule in_set_takeD)
    with assms(2) stale_root [of s] have "ov \<noteq> nid (document s)" by auto
    from removeExcess_gone [OF a this] show "ov \<notin> nid ` set (subtree (document (performCleanup s)))"
      unfolding eq .
  qed
qed

lemma performCleanup_keeps:
  assumes "\<forall>ov \<in> set (liveOverlays s). \<not> staleOverlay s ov"
    and "isUnlimitedPage s \<or> currentOverlaysCount s \<le> MAX_TOTAL_OVERLAYS"
  shows "performCleanup s = s"
  using assms(2) by (auto simp: performCleanup_def stale_loop_idle [OF assms(1)] Let_def)

lemma remeltGuard_counter:
  "remeltGuard el (s\<lparr>currentOverlaysCount := m\<rparr>)
     = map_option (\<lambda>t. t\<lparr>currentOverlaysCount := m\<rparr>) (remeltGuard el s)"
  by (cases s) (simp add: remeltGuard_def isRemeltPage_def setTimeout_def Let_def split: option.splits)

lemma remeltGuard_counter_same:
  "remeltGuard el s = Some s1 \<Longrightarrow> currentOverlaysCount s1 = currentOverlaysCount s"
  by (auto simp: remeltGuard_def Let_def setTimeout_def split: if_splits option.splits)

lemma addStatsOverlay_counter:
  assumes "isUnlimitedPage s"
  shows "addStatsOverlay c (s\<lparr>currentOverlaysCount := m\<rparr>)
           = (addStatsOverlay c s)
               \<lparr>currentOverlaysCount := m + (currentOverlaysCount (addStatsOverlay c s) - currentOverlaysCount s)\<rparr>"
proof -
  let ?s' = "s\<lparr>currentOverlaysCount := m\<rparr>"
  have same: "s\<lparr>currentOverlaysCount := m + (currentOverlaysCount s - currentOverlaysCount s)\<rparr> = ?s'"
    by simp
  show ?thesis
  proof (cases "documentContains s (element c)")
    case False
    then show ?thesis using assms by (simp add: addStatsOverlay_def counter_reads)
  next
    case inDoc: True
    show ?thesis
    proof (cases "lookupElement s (element c)")
      case None
      then show ?thesis using assms inDoc by (simp add: addStatsOverlay_def counter_reads)
    next
      case (Some el)
      show ?thesis
      proof (cases "remeltGuard el s")
        case None
        then show ?thesis using assms inDoc Some
          by (simp add: addStatsOverlay_def counter_reads remeltGuard_counter)
      next
        case guard: (Some s1)
        have g': "remeltGuard el ?s' = Some (s1\<lparr>currentOverlaysCount := m\<rparr>)"
          by (simp add: remeltGuard_counter guard)
        have c1: "currentOverlaysCount s1 = currentOverlaysCount s"
          by (rule remeltGuard_counter_same [OF guard])
        show ?thesis
        proof (cases "querySelector el overlaySelector \<noteq> None \<or> hasAttribute el ''data-animestars-processed''")
          case True
          then have "addStatsOverlay c s = s1" "addStatsOverlay c ?s' = s1\<lparr>currentOverlaysCount := m\<rparr>"
            using assms inDoc Some guard g' by (auto simp: addStatsOverlay_def counter_reads)
          then show ?thesis using c1 by simp
        next
          case False
          from False have qa: "querySelectorAll el overlaySelector = []"
            by (auto simp: querySelector_def querySelectorAll_def find_None_iff filter_empty_conv)
          define s3 where "s3 = updateElement (element c) (setAttribute ''data-animestars-processed'' ''true'') s1"
          have c3: "currentOverlaysCount s3 = currentOverlaysCount s"
            by (simp add: s3_def updateElement_counter c1)
          have s3': "updateElement (element c) (setAttribute ''data-animestars-processed'' ''true'')
              (s1\<lparr>currentOverlaysCount := m\<rparr>) = s3\<lparr>currentOverlaysCount := m\<rparr>"
            by (simp add: s3_def updateElement_counter)
          have a: "addStatsOverlay c s
               = (case statsCache s3 (cardId c) of
                    Some stats \<Rightarrow> finishOverlay c stats s3
                  | None \<Rightarrow> s3\<lparr>sent := getCardStatsMessage (cardId c) # sent s3,
                               inFlight := inFlight s3 @ [c]\<rparr>)"
            using assms inDoc Some guard False qa
            unfolding addStatsOverlay_def s3_def by (simp add: Let_def)
          have sc: "statsCache (s3\<lparr>currentOverlaysCount := m\<rparr>) = statsCache s3"
            "sent (s3\<lparr>currentOverlaysCount := m\<rparr>) = sent s3"
            "inFlight (s3\<lparr>currentOverlaysCount := m\<rparr>) = inFlight s3" by simp_all
          have b: "addStatsOverlay c ?s'
               = (case statsCache s3 (cardId c) of
                    Some stats \<Rightarrow> finishOverlay c stats (s3\<lparr>currentOverlaysCount := m\<rparr>)
                  | None \<Rightarrow> (s3\<lparr>currentOverlaysCount := m\<rparr>)
                              \<lparr>sent := getCardStatsMessage (cardId c) # sent s3,
                               inFlight := inFlight s3 @ [c]\<rparr>)"
            using assms inDoc Some g' False qa
            unfolding addStatsOverlay_def
            by (simp only: counter_reads option.case if_False if_True Let_def s3' sc simp_thms)
          show ?thesis
          proof (cases "statsCache s3 (cardId c)")
            case None
            have "(s3\<lparr>currentOverlaysCount := m\<rparr>)
                     \<lparr>sent := getCardStatsMessage (cardId c) # sent s3, inFlight := inFlight s3 @ [c]\<rparr>
                  = (s3\<lparr>sent := getCardStatsMessage (cardId c) # sent s3, inFlight := inFlight s3 @ [c]\<rparr>)
                     \<lparr>currentOverlaysCount := m\<rparr>"
              by (cases s3) simp
            then show ?thesis unfolding a b using None c3 by simp
          next
            case (Some stats)
            show ?thesis unfolding a b using Some c3 by (simp add: finishOverlay_counter)
          qed
        qed
      qed
    qed
  qed
qed

text \<open>
  C5 (as amended). On a page that is not an unlimited one a call of
  \<^verbatim>\<open>addStatsOverlay\<close> is refused, the state left as it is, once the counter has reached
  \<^verbatim>\<open>MAX_TOTAL_OVERLAYS\<close>. The check is made when the call starts: a call that was
  admitted before and waits for its statistics does, when they arrive, what it would do
  with any other value of the counter, so it still inserts its overlay and counts it,
  and the overlays can pass the maximum. The periodic sweep then takes the excess out:
  on such a page, when no overlay is stale and the counter exceeds the maximum by no
  more than the document has overlays, it removes the first overlays of the document, as
  many as the counter exceeds the maximum, and leaves the counter at the maximum. On an
  unlimited page (trade, remelt) the cap is not enforced: the call does what it would do
  with any other value of the counter, and the sweep removes nothing but stale overlays.
\<close>

theorem overlay_cap_is_checked_at_admission_and_by_the_sweep:
  "(\<not> isUnlimitedPage s \<and> currentOverlaysCount s \<ge> MAX_TOTAL_OVERLAYS \<longrightarrow> addStatsOverlay c s = s)
   \<and> statsResponse k answer (s\<lparr>currentOverlaysCount := m\<rparr>)
       = (statsResponse k answer s)
           \<lparr>currentOverlaysCount :=
              m + (currentOverlaysCount (statsResponse k answer s) - currentOverlaysCount s)\<rparr>
   \<and> (\<not> isUnlimitedPage s \<and> (\<forall>ov \<in> set (liveOverlays s). \<not> staleOverlay s ov)
        \<and> currentOverlaysCount s > MAX_TOTAL_OVERLAYS
        \<and> currentOverlaysCount s - MAX_TOTAL_OVERLAYS \<le> int (length (liveOverlays s))
       \<longrightarrow> currentOverlaysCount (performCleanup s) = MAX_TOTAL_OVERLAYS
           \<and> (\<forall>ov \<in> set (take (nat (currentOverlaysCount s - MAX_TOTAL_OVERLAYS)) (liveOverlays s)).
                 ov \<notin> nid ` set (subtree (document (performCleanup s)))))
   \<and> (isUnlimitedPage s \<longrightarrow>
         addStatsOverlay c (s\<lparr>currentOverlaysCount := m\<rparr>)
           = (addStatsOverlay c s)
               \<lparr>currentOverlaysCount :=
                  m + (currentOverlaysCount (addStatsOverlay c s) - currentOverlaysCount s)\<rparr>)
   \<and> (isUnlimitedPage s \<and> (\<forall>ov \<in> set (liveOverlays s). \<not> staleOverlay s ov)
       \<longrightarrow> performCleanup s = s)"
proof -
  have a: "addStatsOverlay c s = s"
    if "\<not> isUnlimitedPage s \<and> currentOverlaysCount s \<ge> MAX_TOTAL_OVERLAYS"
    using that by (simp add: addStatsOverlay_def)
  note b = statsResponse_counter [where k = k and answer = answer and s = s and m = m]
  have c: "currentOverlaysCount (performCleanup s) = MAX_TOTAL_OVERLAYS
           \<and> (\<forall>ov \<in> set (take (nat (currentOverlaysCount s - MAX_TOTAL_OVERLAYS)) (liveOverlays s)).
                 ov \<notin> nid ` set (subtree (document (performCleanup s))))"
    if "\<not> isUnlimitedPage s \<and> (\<forall>ov \<in> set (liveOverlays s). \<not> staleOverlay s ov)
        \<and> currentOverlaysCount s > MAX_TOTAL_OVERLAYS
        \<and> currentOverlaysCount s - MAX_TOTAL_OVERLAYS \<le> int (length (liveOverlays s))"
    using performCleanup_trims [of s] that by blast
  have d: "addStatsOverlay c (s\<lparr>currentOverlaysCount := m\<rparr>)
           = (addStatsOverlay c s)
               \<lparr>currentOverlaysCount :=
                  m + (currentOverlaysCount (addStatsOverlay c s) - currentOverlaysCount s)\<rparr>"
    if "isUnlimitedPage s"
    using that by (rule addStatsOverlay_counter)
  have e: "performCleanup s = s"
    if "isUnlimitedPage s \<and> (\<forall>ov \<in> set (liveOverlays s). \<not> staleOverlay s ov)"
    using performCleanup_keeps [of s] that by blast
  from a b c d e show ?thesis by blast
qed

text \<open>
  For the sweep: a state of the inventory page with one card and its overlay whose
  counter stands at 201 (the counter also counts the overlays that were discarded at
  insertion, and is not decremented when the page takes an overlay out). For the
  unlimited page: the same card on a trade page.
\<close>

definition overdrawn :: state where
  "overdrawn = (crowded 1)\<lparr>currentOverlaysCount := 201\<rparr>"

definition onTrade :: state where
  "onTrade =
     run [Initialise (\<lambda>k. readyBackground), Intersecting [1] readyBackground,
          StatsAnswer 0 statsAnswer]
       (construct (inventoryOf 1) ''/trade/'' 0 2)"

definition sweepView :: "state \<Rightarrow> bool \<times> int \<times> nat list \<times> bool" where
  "sweepView s =
     (isUnlimitedPage s, currentOverlaysCount s, liveOverlays s,
      list_ex (staleOverlay s) (liveOverlays s))"

theorem overlay_cap_is_checked_at_admission_and_by_the_sweep_witness:
  "\<not> isUnlimitedPage (crowded 201) \<and> currentOverlaysCount (crowded 201) = 201
   \<and> addStatsOverlay (waitingCard 1) (crowded 201) = crowded 201
   \<and> sweepView overdrawn = (False, 201, [2], False)
   \<and> currentOverlaysCount (performCleanup overdrawn) = 200
   \<and> 2 \<notin> nid ` set (subtree (document (performCleanup overdrawn)))
   \<and> sweepView onTrade = (True, 1, [2], False)
   \<and> performCleanup onTrade = onTrade
   \<and> addStatsOverlay (waitingCard 1) (onTrade\<lparr>currentOverlaysCount := 200\<rparr>)
       = (addStatsOverlay (waitingCard 1) onTrade)
           \<lparr>currentOverlaysCount :=
              200 + (currentOverlaysCount (addStatsOverlay (waitingCard 1) onTrade)
                     - currentOverlaysCount onTrade)\<rparr>"
proof -
  note crowd = answered_all [OF crowded_answering [of 201]]
  have full: "\<not> isUnlimitedPage (crowded 201)" "currentOverlaysCount (crowded 201) = 201"
    using crowd by simp_all
  then have refused: "addStatsOverlay (waitingCard 1) (crowded 201) = crowded 201"
    using overlay_cap_is_checked_at_admission_and_by_the_sweep [where s = "crowded 201" and c = "waitingCard 1"]
    by (simp add: MAX_TOTAL_OVERLAYS_def)
  have v1: "sweepView overdrawn = (False, 201, [2], False)" by code_simp
  then have h1: "\<not> isUnlimitedPage overdrawn" "currentOverlaysCount overdrawn = 201"
      "liveOverlays overdrawn = [2]" "\<forall>ov \<in> set (liveOverlays overdrawn). \<not> staleOverlay overdrawn ov"
    by (simp_all add: sweepView_def list_ex_iff)
  have swept: "currentOverlaysCount (performCleanup overdrawn) = 200
      \<and> 2 \<notin> nid ` set (subtree (document (performCleanup overdrawn)))"
    using overlay_cap_is_checked_at_admission_and_by_the_sweep [where s = overdrawn] h1
    by (simp add: MAX_TOTAL_OVERLAYS_def)
  have v2: "sweepView onTrade = (True, 1, [2], False)" by code_simp
  then have h2: "isUnlimitedPage onTrade" "\<forall>ov \<in> set (liveOverlays onTrade). \<not> staleOverlay onTrade ov"
    by (simp_all add: sweepView_def list_ex_iff)
  have kept: "performCleanup onTrade = onTrade"
    using overlay_cap_is_checked_at_admission_and_by_the_sweep [where s = onTrade] h2 by blast
  have free: "addStatsOverlay (waitingCard 1) (onTrade\<lparr>currentOverlaysCount := 200\<rparr>)
       = (addStatsOverlay (waitingCard 1) onTrade)
           \<lparr>currentOverlaysCount :=
              200 + (currentOverlaysCount (addStatsOverlay (waitingCard 1) onTrade)
                     - currentOverlaysCount onTrade)\<rparr>"
    using overlay_cap_is_checked_at_admission_and_by_the_sweep [where s = onTrade and c = "waitingCard 1" and m = 200] h2(1)
    by blast
  from full refused v1 swept v2 kept free show ?thesis by blast
qed

end
